theory Spec2Isabelle
  imports Main "HOL-Library.Word"
begin

section \<open>The process, its memory and the C library\<close>

text \<open>
  The two source files are \<^verbatim>\<open>main.c\<close> (the command-line reader) and
  \<^verbatim>\<open>grammar_stubs.c\<close> (the OCaml binding). Both are glue around the external
  function \<^verbatim>\<open>parse_to_string\<close>. They are modelled over an explicit memory: a
  map from block addresses to blocks, each block owned either by the C allocator or by the
  managed (OCaml) runtime. Bytes are \<^typ>\<open>char\<close>; a byte of a fresh block holds no
  value yet (\<open>None\<close>). Every library call the code makes is appended to a trace, in
  program order, so that the order of allocations, releases, parser calls and output can be
  stated.
\<close>

type_synonym size_t = "64 word"

type_synonym addr = nat

datatype ptr = NULL | Ptr addr

datatype owner = C_heap | Managed

type_synonym block = "char option list"

datatype exit_status = EXIT_SUCCESS | EXIT_FAILURE

text \<open>The values of \<^verbatim>\<open>stdlib.h\<close>: success is 0, failure is 1.\<close>

fun status_code :: "exit_status \<Rightarrow> int" where
  "status_code EXIT_SUCCESS = 0"
| "status_code EXIT_FAILURE = 1"

text \<open>
  The trace. \<open>Malloc n p\<close>: a request for \<open>n\<close> bytes returned \<open>p\<close>.
  \<open>Realloc p n q\<close>: resizing \<open>p\<close> to \<open>n\<close> bytes returned \<open>q\<close>. \<open>Free p\<close>: the
  block at \<open>p\<close> was released. \<open>Parse p\<close>: the external parser was entered with
  argument \<open>p\<close>. \<open>Debug l s\<close>: the \<^verbatim>\<open>DEBUG_PRINT\<close> of source line \<open>l\<close> wrote the
  message \<open>s\<close> to standard error (the macro as \<^verbatim>\<open>main.c\<close> defines it; its file,
  line and function prefix is kept as the line number only). \<open>Perror s\<close>: \<^verbatim>\<open>perror(s)\<close> wrote its diagnostic to standard
  error. \<open>Stdout s\<close>: the bytes \<open>s\<close> were written to standard output.
\<close>

datatype event =
    Malloc nat ptr
  | Realloc ptr nat ptr
  | Free ptr
  | Parse ptr
  | Debug nat string
  | Perror string
  | Stdout string

record world =
  mem :: "addr \<Rightarrow> (owner \<times> block) option"
  brk :: addr
  trace :: "event list"

definition world0 :: world where
  "world0 = \<lparr>mem = (\<lambda>a. None), brk = 0, trace = []\<rparr>"

definition log :: "event \<Rightarrow> world \<Rightarrow> world" where
  "log e w = w\<lparr>trace := trace w @ [e]\<rparr>"

text \<open>
  A computation either goes on with a value, or the process has terminated with an exit
  status, or the behaviour is undefined in C (a null or dangling pointer was used, a read
  or write left its block, an indeterminate byte was read).
\<close>

datatype 'a step = Continue 'a world | Exit exit_status world | Undefined

fun bind :: "'a step \<Rightarrow> ('a \<Rightarrow> world \<Rightarrow> 'b step) \<Rightarrow> 'b step" where
  "bind (Continue x w) f = f x w"
| "bind (Exit s w) f = Exit s w"
| "bind Undefined f = Undefined"

definition NUL :: char where
  "NUL = CHR 0x00"

definition LF :: char where
  "LF = CHR 0x0A"

subsection \<open>The allocator\<close>

text \<open>
  Whether a request is granted is not decided by the program: \<open>ok n\<close> is the
  environment's answer to a request for \<open>n\<close> bytes. No allocator grants more than
  \<^verbatim>\<open>PTRDIFF_MAX\<close> bytes (the C library refuses such a request whatever memory there
  is), which is what keeps the doubling of a 64-bit capacity from wrapping around.
\<close>

definition PTRDIFF_MAX :: nat where
  "PTRDIFF_MAX = 2 ^ 63 - 1"

definition grants :: "(nat \<Rightarrow> bool) \<Rightarrow> nat \<Rightarrow> bool" where
  "grants ok n \<longleftrightarrow> ok n \<and> n \<le> PTRDIFF_MAX"

definition c_block :: "world \<Rightarrow> addr \<Rightarrow> block option" where
  "c_block w a = (case mem w a of
      None \<Rightarrow> None
    | Some (C_heap, b) \<Rightarrow> Some b
    | Some (Managed, b) \<Rightarrow> None)"

text \<open>The addresses of the blocks the C allocator has handed out and not got back.\<close>

definition live :: "world \<Rightarrow> addr set" where
  "live w = {a. c_block w a \<noteq> None}"

definition malloc :: "(nat \<Rightarrow> bool) \<Rightarrow> nat \<Rightarrow> world \<Rightarrow> ptr \<times> world" where
  "malloc ok n w =
     (if grants ok n
      then (Ptr (brk w),
            w\<lparr>mem := (mem w)(brk w \<mapsto> (C_heap, replicate n None)),
              brk := Suc (brk w),
              trace := trace w @ [Malloc n (Ptr (brk w))]\<rparr>)
      else (NULL, log (Malloc n NULL) w))"

text \<open>
  \<^verbatim>\<open>realloc\<close>: on success the old block is gone and a block of the new size, holding
  the old contents up to the smaller of the two sizes, is at the returned address; on
  failure the old block is untouched and still valid. Resizing a pointer that is not a
  live block of the allocator is undefined (\<open>None\<close>).
\<close>

definition realloc :: "(nat \<Rightarrow> bool) \<Rightarrow> ptr \<Rightarrow> nat \<Rightarrow> world \<Rightarrow> (ptr \<times> world) option" where
  "realloc ok p n w =
     (case p of
        NULL \<Rightarrow> Some (malloc ok n w)
      | Ptr a \<Rightarrow>
          (case c_block w a of
             None \<Rightarrow> None
           | Some b \<Rightarrow>
               if grants ok n
               then Some (Ptr (brk w),
                      w\<lparr>mem := ((mem w)(a := None))
                                  (brk w \<mapsto> (C_heap, take n b @ replicate (n - length b) None)),
                        brk := Suc (brk w),
                        trace := trace w @ [Realloc p n (Ptr (brk w))]\<rparr>)
               else Some (NULL, log (Realloc p n NULL) w)))"

text \<open>
  \<^verbatim>\<open>free\<close>: releasing the null pointer does nothing; releasing anything else than a
  live block of the allocator is undefined.
\<close>

definition free :: "ptr \<Rightarrow> world \<Rightarrow> world option" where
  "free p w =
     (case p of
        NULL \<Rightarrow> Some (log (Free NULL) w)
      | Ptr a \<Rightarrow>
          (case c_block w a of
             None \<Rightarrow> None
           | Some b \<Rightarrow> Some (w\<lparr>mem := (mem w)(a := None), trace := trace w @ [Free p]\<rparr>)))"

subsection \<open>Reading and writing bytes\<close>

text \<open>\<^verbatim>\<open>p[i] = c\<close>: undefined outside the block.\<close>

definition store :: "ptr \<Rightarrow> nat \<Rightarrow> char \<Rightarrow> world \<Rightarrow> world option" where
  "store p i c w =
     (case p of
        NULL \<Rightarrow> None
      | Ptr a \<Rightarrow>
          (case mem w a of
             None \<Rightarrow> None
           | Some (own, b) \<Rightarrow>
               if i < length b then Some (w\<lparr>mem := (mem w)(a \<mapsto> (own, b[i := Some c]))\<rparr>)
               else None))"

text \<open>
  Reading a null-terminated string: the bytes before the first \<open>NUL\<close>. Undefined when
  the block ends, or an indeterminate byte comes, before a \<open>NUL\<close> is found.
\<close>

fun scan :: "block \<Rightarrow> string option" where
  "scan [] = None"
| "scan (None # bs) = None"
| "scan (Some c # bs) =
     (if c = NUL then Some [] else (case scan bs of None \<Rightarrow> None | Some s \<Rightarrow> Some (c # s)))"

definition cstring :: "world \<Rightarrow> ptr \<Rightarrow> string option" where
  "cstring w p =
     (case p of
        NULL \<Rightarrow> None
      | Ptr a \<Rightarrow> (case mem w a of None \<Rightarrow> None | Some (own, b) \<Rightarrow> scan b))"

subsection \<open>The external parser\<close>

text \<open>
  Modelled from the spec: \<^verbatim>\<open>parse_to_string\<close> is declared \<^verbatim>\<open>extern\<close> in both
  files and defined in neither. Its contract is the spec's: it takes a null-terminated byte
  buffer and returns a newly allocated, null-terminated buffer holding the parse result,
  which the caller must release. What it computes is the parameter \<open>parser\<close>, from the
  input text to the result text; \<open>None\<close> stands for a parser that hands back a null
  pointer.
\<close>

definition parse_to_string :: "(string \<Rightarrow> string option) \<Rightarrow> ptr \<Rightarrow> world \<Rightarrow> ptr step" where
  "parse_to_string parser p w =
     (case cstring w p of
        None \<Rightarrow> Undefined
      | Some s \<Rightarrow>
          (case parser s of
             None \<Rightarrow> Continue NULL (log (Parse p) w)
           | Some r \<Rightarrow>
               Continue (Ptr (brk w))
                 (w\<lparr>mem := (mem w)(brk w \<mapsto> (C_heap, map Some r @ [Some NUL])),
                    brk := Suc (brk w),
                    trace := trace w @ [Parse p, Malloc (Suc (length r)) (Ptr (brk w))]\<rparr>)))"

text \<open>
  Modelled from the spec: the stub parser of the spec's tests, which echoes its input
  unchanged.
\<close>

definition echo :: "string \<Rightarrow> string option" where
  "echo s = Some s"

section \<open>main.c\<close>

record locals =
  buffer :: ptr
  size :: size_t
  capacity :: size_t

text \<open>Lines 26 to 34: the first debug line, the initial allocation and its check.\<close>

definition start :: "(nat \<Rightarrow> bool) \<Rightarrow> world \<Rightarrow> locals step" where
  "start ok w =
     (let w1 = log (Debug 26 ''Starting main function'') w;
          capacity0 = (1024 :: size_t);
          size0 = (0 :: size_t);
          (buffer0, w2) = malloc ok (unat capacity0) w1
      in if buffer0 = NULL
         then Exit EXIT_FAILURE (log (Perror ''Could not allocate buffer with capacity'') w2)
         else Continue \<lparr>buffer = buffer0, size = size0, capacity = capacity0\<rparr>
                (log (Debug 34 ''Initial buffer allocated'') w2))"

text \<open>Lines 38 to 47: the growth step at the head of the loop body.\<close>

definition grow :: "(nat \<Rightarrow> bool) \<Rightarrow> locals \<Rightarrow> world \<Rightarrow> locals step" where
  "grow ok l w =
     (if size l + 1 \<ge> capacity l
      then (let capacity' = capacity l * 2
            in case realloc ok (buffer l) (unat capacity') w of
                 None \<Rightarrow> Undefined
               | Some (newbuf, w1) \<Rightarrow>
                   if newbuf = NULL
                   then (case free (buffer l) w1 of
                           None \<Rightarrow> Undefined
                         | Some w2 \<Rightarrow>
                             Exit EXIT_FAILURE
                               (log (Perror ''Could not reallocate buffer with capacity'') w2))
                   else Continue (l\<lparr>buffer := newbuf, capacity := capacity'\<rparr>) w1)
      else Continue l w)"

text \<open>Line 48: \<^verbatim>\<open>buffer[size++] = (char)c\<close>.\<close>

definition put :: "char \<Rightarrow> locals \<Rightarrow> world \<Rightarrow> locals step" where
  "put c l w =
     (case store (buffer l) (unat (size l)) c w of
        None \<Rightarrow> Undefined
      | Some w1 \<Rightarrow> Continue (l\<lparr>size := size l + 1\<rparr>) w1)"

text \<open>
  Lines 37 to 49: the loop. Standard input is the list of its bytes; \<^verbatim>\<open>fgetc\<close>
  returns them one by one and \<^verbatim>\<open>EOF\<close> at the end of the list.
\<close>

fun read_loop :: "(nat \<Rightarrow> bool) \<Rightarrow> string \<Rightarrow> locals \<Rightarrow> world \<Rightarrow> locals step" where
  "read_loop ok [] l w = Continue l w"
| "read_loop ok (c # cs) l w = bind (bind (grow ok l w) (put c)) (read_loop ok cs)"

text \<open>Lines 51 and 52: the terminator and the debug line that prints the buffer.\<close>

definition terminate :: "locals \<Rightarrow> world \<Rightarrow> locals step" where
  "terminate l w =
     (case store (buffer l) (unat (size l)) NUL w of
        None \<Rightarrow> Undefined
      | Some w1 \<Rightarrow>
          (case cstring w1 (buffer l) of
             None \<Rightarrow> Undefined
           | Some s \<Rightarrow> Continue l (log (Debug 52 (''Stdin read. Content: '' @ s)) w1)))"

text \<open>Lines 54 to 57: the parser call, the report and the release of the result.\<close>

definition printf_result :: "ptr \<Rightarrow> world \<Rightarrow> unit step" where
  "printf_result res w =
     (case cstring w res of
        None \<Rightarrow> Undefined
      | Some s \<Rightarrow> Continue () (log (Stdout (''RESULT:'' @ [LF] @ s @ [LF])) w))"

definition run :: "(string \<Rightarrow> string option) \<Rightarrow> locals \<Rightarrow> world \<Rightarrow> unit step" where
  "run parser l w =
     bind (parse_to_string parser (buffer l) w) (\<lambda>res w1.
       bind (printf_result res w1) (\<lambda>_ w2.
         (case free res w2 of
            None \<Rightarrow> Undefined
          | Some w3 \<Rightarrow> Exit EXIT_SUCCESS w3)))"

text \<open>The state at the head of the loop once the bytes \<open>cs\<close> have been read.\<close>

definition reading :: "(nat \<Rightarrow> bool) \<Rightarrow> string \<Rightarrow> locals step" where
  "reading ok cs = bind (start ok world0) (read_loop ok cs)"

text \<open>Lines 26 to 52: the accumulator, from the first allocation to the terminator.\<close>

definition accumulate :: "(nat \<Rightarrow> bool) \<Rightarrow> string \<Rightarrow> locals step" where
  "accumulate ok input = bind (reading ok input) terminate"

definition main :: "(nat \<Rightarrow> bool) \<Rightarrow> (string \<Rightarrow> string option) \<Rightarrow> string \<Rightarrow> unit step" where
  "main ok parser input = bind (accumulate ok input) (run parser)"

text \<open>What a terminated process has written to standard output.\<close>

fun stdout_of :: "event list \<Rightarrow> string" where
  "stdout_of [] = []"
| "stdout_of (Stdout s # es) = s @ stdout_of es"
| "stdout_of (e # es) = stdout_of es"

section \<open>grammar\_stubs.c\<close>

text \<open>
  An OCaml string value is a block of the managed runtime holding the string's bytes and
  a final \<open>NUL\<close>; \<^verbatim>\<open>String_val\<close> is the pointer to its bytes.
  \<^verbatim>\<open>caml_copy_string\<close> reads a null-terminated string and returns a new managed
  block holding a copy; it is the runtime's allocation, not the C allocator's.
\<close>

definition String_val :: "addr \<Rightarrow> ptr" where
  "String_val v = Ptr v"

definition caml_copy_string :: "ptr \<Rightarrow> world \<Rightarrow> addr step" where
  "caml_copy_string p w =
     (case cstring w p of
        None \<Rightarrow> Undefined
      | Some s \<Rightarrow>
          Continue (brk w)
            (w\<lparr>mem := (mem w)(brk w \<mapsto> (Managed, map Some s @ [Some NUL])),
               brk := Suc (brk w)\<rparr>))"

definition ocaml_parse_to_string :: "(string \<Rightarrow> string option) \<Rightarrow> addr \<Rightarrow> world \<Rightarrow> addr step" where
  "ocaml_parse_to_string parser v_input w =
     (let input = String_val v_input
      in bind (parse_to_string parser input w) (\<lambda>result w1.
           bind (caml_copy_string result w1) (\<lambda>v_res w2.
             (case free result w2 of
                None \<Rightarrow> Undefined
              | Some w3 \<Rightarrow> Continue v_res w3))))"

text \<open>The text of the managed string \<open>v\<close>.\<close>

definition managed_text :: "world \<Rightarrow> addr \<Rightarrow> string option" where
  "managed_text w v =
     (case mem w v of
        None \<Rightarrow> None
      | Some (C_heap, b) \<Rightarrow> None
      | Some (Managed, b) \<Rightarrow> scan b)"

section \<open>Vocabulary of the properties\<close>

text \<open>A request that the allocator refused shows in the trace as a null result.\<close>

fun alloc_failed :: "event \<Rightarrow> bool" where
  "alloc_failed (Malloc n NULL) = True"
| "alloc_failed (Realloc p n NULL) = True"
| "alloc_failed e = False"

text \<open>A successful resize of a live block.\<close>

fun growth :: "event \<Rightarrow> bool" where
  "growth (Realloc (Ptr a) n (Ptr b)) = True"
| "growth e = False"

fun is_parse :: "event \<Rightarrow> bool" where
  "is_parse (Parse p) = True"
| "is_parse e = False"

fun is_perror :: "event \<Rightarrow> bool" where
  "is_perror (Perror s) = True"
| "is_perror e = False"

text \<open>
  What an allocation-tracking harness counts: the blocks handed out by \<^verbatim>\<open>malloc\<close>
  and the blocks given back to \<^verbatim>\<open>free\<close>.
\<close>

fun allocations :: "event list \<Rightarrow> nat" where
  "allocations [] = 0"
| "allocations (Malloc n (Ptr a) # es) = Suc (allocations es)"
| "allocations (e # es) = allocations es"

fun releases :: "event list \<Rightarrow> nat" where
  "releases [] = 0"
| "releases (Free (Ptr a) # es) = Suc (releases es)"
| "releases (e # es) = releases es"

text \<open>Every block in memory lies below the next fresh address.\<close>

definition wf_world :: "world \<Rightarrow> bool" where
  "wf_world w \<longleftrightarrow> (\<forall>a. mem w a \<noteq> None \<longrightarrow> a < brk w)"

text \<open>The events of lines 26 to 34 when the first allocation is granted.\<close>

definition start_trace :: "event list" where
  "start_trace =
     [Debug 26 ''Starting main function'', Malloc 1024 (Ptr 0),
      Debug 34 ''Initial buffer allocated'']"

text \<open>
  The loop invariant, with \<open>cs\<close> the bytes read so far: the buffer is the only block of
  the process, it is \<open>capacity\<close> bytes long, it starts with \<open>cs\<close> and nothing has been
  written after them, and \<open>size\<close> counts \<open>cs\<close> and leaves room for one byte more.
\<close>

definition loop_inv :: "string \<Rightarrow> locals \<Rightarrow> world \<Rightarrow> bool" where
  "loop_inv cs l w \<longleftrightarrow>
     (\<exists>a k. buffer l = Ptr a \<and> brk w = Suc a \<and>
        unat (capacity l) = 1024 * 2 ^ k \<and> unat (capacity l) \<le> PTRDIFF_MAX \<and>
        unat (size l) = length cs \<and> length cs < unat (capacity l) \<and>
        mem w = (\<lambda>x. None)(a \<mapsto> (C_heap,
                  map Some cs @ replicate (unat (capacity l) - length cs) None)))"

text \<open>
  The state after line 51, with \<open>cs\<close> the whole input: as the loop invariant, and the
  terminator has been written after the last byte read.
\<close>

definition final_inv :: "string \<Rightarrow> locals \<Rightarrow> world \<Rightarrow> bool" where
  "final_inv cs l w \<longleftrightarrow>
     (\<exists>a k. buffer l = Ptr a \<and> brk w = Suc a \<and>
        unat (capacity l) = 1024 * 2 ^ k \<and> unat (capacity l) \<le> PTRDIFF_MAX \<and>
        unat (size l) = length cs \<and> length cs < unat (capacity l) \<and>
        mem w = (\<lambda>x. None)(a \<mapsto> (C_heap,
                  map Some (cs @ [NUL]) @ replicate (unat (capacity l) - Suc (length cs)) None)))"

text \<open>The text a C string reader sees in the bytes \<open>cs\<close>: what comes before the first \<open>NUL\<close>.\<close>

definition text_of :: "string \<Rightarrow> string" where
  "text_of cs = takeWhile (\<lambda>c. c \<noteq> NUL) cs"

section \<open>Facts about the library model and the loop\<close>

lemma scan_terminated:
  "scan (map Some cs @ Some NUL # rest) = Some (text_of cs)"
  by (induction cs) (auto simp: text_of_def)

lemma block_put:
  "n = length cs \<Longrightarrow> n < m \<Longrightarrow>
   (map Some cs @ replicate (m - n) None)[n := Some c] =
     map Some (cs @ [c]) @ replicate (m - Suc n) None"
  by (cases "m - n") (auto simp: list_update_append)

lemma block_grown:
  "length cs < m \<Longrightarrow> b = map Some cs @ replicate (m - length cs) None \<Longrightarrow>
   take (2 * m) b @ replicate (2 * m - length b) None =
     map Some cs @ replicate (2 * m - length cs) (None :: char option)"
  by (simp add: replicate_add [symmetric])

lemma unat_size_succ:
  fixes s c :: size_t
  assumes "unat s < unat c"
  shows "unat (s + 1) = Suc (unat s)"
proof -
  have "unat c < 2 ^ 64" using unsigned_less [of c, where 'a = nat] by simp
  with assms have "unat s + 1 < 2 ^ 64" by simp
  then show ?thesis by (simp add: unat_word_ariths)
qed

lemma size_cmp:
  fixes s c :: size_t
  assumes "unat s < unat c"
  shows "c \<le> s + 1 \<longleftrightarrow> unat c \<le> Suc (unat s)"
  by (simp add: word_le_nat_alt unat_size_succ [OF assms])

lemma unat_double:
  fixes c :: size_t
  assumes "unat c \<le> PTRDIFF_MAX"
  shows "unat (c * 2) = 2 * unat c"
  using assms by (simp add: unat_word_ariths PTRDIFF_MAX_def)

lemma start_granted:
  assumes "grants ok 1024"
  shows "start ok world0 =
           Continue \<lparr>buffer = Ptr 0, size = 0, capacity = 1024\<rparr>
             \<lparr>mem = (\<lambda>x. None)(0 \<mapsto> (C_heap, replicate 1024 None)), brk = Suc 0,
              trace = start_trace\<rparr>"
  using assms by (simp add: start_def malloc_def world0_def log_def start_trace_def)

lemma start_inv:
  "loop_inv [] \<lparr>buffer = Ptr 0, size = 0, capacity = 1024\<rparr>
     \<lparr>mem = (\<lambda>x. None)(0 \<mapsto> (C_heap, replicate 1024 None)), brk = Suc 0,
      trace = start_trace\<rparr>"
  by (simp add: loop_inv_def PTRDIFF_MAX_def exI [of _ 0])

lemma start_refused:
  assumes "\<not> grants ok 1024"
  shows "start ok world0 =
           Exit EXIT_FAILURE \<lparr>mem = (\<lambda>a. None), brk = 0,
             trace = [Debug 26 ''Starting main function'', Malloc 1024 NULL,
                      Perror ''Could not allocate buffer with capacity'']\<rparr>"
  using assms by (simp add: start_def malloc_def world0_def log_def)

lemma grow_fits:
  assumes "loop_inv cs l w" and "Suc (length cs) < unat (capacity l)"
  shows "grow ok l w = Continue l w"
proof -
  from assms(1) have "unat (size l) = length cs" "unat (size l) < unat (capacity l)"
    by (auto simp: loop_inv_def)
  with assms(2) have "\<not> capacity l \<le> size l + 1"
    by (simp add: size_cmp)
  then show ?thesis by (simp add: grow_def)
qed

lemma grow_doubles:
  assumes inv: "loop_inv cs l w" and full: "unat (capacity l) \<le> Suc (length cs)"
    and ok: "grants ok (2 * unat (capacity l))"
  shows "\<exists>l' w'. grow ok l w = Continue l' w' \<and> loop_inv cs l' w' \<and>
           unat (capacity l') = 2 * unat (capacity l) \<and> size l' = size l \<and>
           buffer l' = Ptr (brk w) \<and>
           trace w' = trace w @ [Realloc (buffer l) (2 * unat (capacity l)) (Ptr (brk w))]"
proof -
  from inv obtain a k where a: "buffer l = Ptr a" "brk w = Suc a"
    and cap: "unat (capacity l) = 1024 * 2 ^ k" "unat (capacity l) \<le> PTRDIFF_MAX"
    and sz: "unat (size l) = length cs" "length cs < unat (capacity l)"
    and m: "mem w = (\<lambda>x. None)(a \<mapsto> (C_heap,
                  map Some cs @ replicate (unat (capacity l) - length cs) None))"
    by (auto simp: loop_inv_def)
  from sz full have cmp: "capacity l \<le> size l + 1" by (simp add: size_cmp)
  have dbl: "unat (capacity l * 2) = 2 * unat (capacity l)" using cap(2) by (rule unat_double)
  let ?b = "map Some cs @ replicate (unat (capacity l) - length cs) None"
  let ?w' = "w\<lparr>mem := ((mem w)(a := None))
                 (brk w \<mapsto> (C_heap, take (2 * unat (capacity l)) ?b @
                    replicate (2 * unat (capacity l) - length ?b) None)),
               brk := Suc (brk w),
               trace := trace w @ [Realloc (Ptr a) (2 * unat (capacity l)) (Ptr (brk w))]\<rparr>"
  let ?l' = "l\<lparr>buffer := Ptr (brk w), capacity := capacity l * 2\<rparr>"
  have g: "grow ok l w = Continue ?l' ?w'"
    using cmp ok a m dbl by (simp add: grow_def realloc_def c_block_def)
  have blk: "take (2 * unat (capacity l)) ?b @ replicate (2 * unat (capacity l) - length ?b) None
      = map Some cs @ replicate (2 * unat (capacity l) - length cs) None"
    using sz(2) by (intro block_grown) auto
  have memeq: "mem ?w' = (\<lambda>x. None)(brk w \<mapsto> (C_heap,
        map Some cs @ replicate (unat (capacity ?l') - length cs) None))"
    unfolding dbl [symmetric] using m blk dbl by (auto simp: fun_eq_iff)
  have "unat (capacity ?l') = 1024 * 2 ^ Suc k" using dbl cap by simp
  moreover have "unat (capacity ?l') \<le> PTRDIFF_MAX" using ok dbl by (simp add: grants_def)
  moreover have "length cs < unat (capacity ?l')" using sz dbl by simp
  ultimately have "loop_inv cs ?l' ?w'"
    unfolding loop_inv_def using memeq sz(1) by (intro exI [of _ "brk w"] exI [of _ "Suc k"]) simp
  with g dbl a show ?thesis by simp
qed

lemma grow_refused:
  assumes inv: "loop_inv cs l w" and full: "unat (capacity l) \<le> Suc (length cs)"
    and no: "\<not> grants ok (2 * unat (capacity l))"
  shows "\<exists>w'. grow ok l w = Exit EXIT_FAILURE w' \<and> live w' = {} \<and>
           trace w' = trace w @ [Realloc (buffer l) (2 * unat (capacity l)) NULL,
             Free (buffer l), Perror ''Could not reallocate buffer with capacity'']"
proof -
  from inv obtain a k where a: "buffer l = Ptr a" "brk w = Suc a"
    and cap: "unat (capacity l) = 1024 * 2 ^ k" "unat (capacity l) \<le> PTRDIFF_MAX"
    and sz: "unat (size l) = length cs" "length cs < unat (capacity l)"
    and m: "mem w = (\<lambda>x. None)(a \<mapsto> (C_heap,
                  map Some cs @ replicate (unat (capacity l) - length cs) None))"
    by (auto simp: loop_inv_def)
  from sz full have cmp: "capacity l \<le> size l + 1" by (simp add: size_cmp)
  have dbl: "unat (capacity l * 2) = 2 * unat (capacity l)" using cap(2) by (rule unat_double)
  show ?thesis
    using cmp no a m dbl
    by (simp add: grow_def realloc_def c_block_def free_def log_def live_def)
qed

lemma put_inv:
  assumes inv: "loop_inv cs l w" and room: "Suc (length cs) < unat (capacity l)"
  shows "\<exists>l' w'. put c l w = Continue l' w' \<and> loop_inv (cs @ [c]) l' w' \<and>
           trace w' = trace w \<and> capacity l' = capacity l \<and> buffer l' = buffer l \<and>
           size l' = size l + 1"
proof -
  from inv obtain a k where a: "buffer l = Ptr a" "brk w = Suc a"
    and cap: "unat (capacity l) = 1024 * 2 ^ k" "unat (capacity l) \<le> PTRDIFF_MAX"
    and sz: "unat (size l) = length cs" "length cs < unat (capacity l)"
    and m: "mem w = (\<lambda>x. None)(a \<mapsto> (C_heap,
                  map Some cs @ replicate (unat (capacity l) - length cs) None))"
    by (auto simp: loop_inv_def)
  let ?b = "map Some cs @ replicate (unat (capacity l) - length cs) None"
  let ?w' = "w\<lparr>mem := (mem w)(a \<mapsto> (C_heap, ?b[length cs := Some c]))\<rparr>"
  let ?l' = "l\<lparr>size := size l + 1\<rparr>"
  have p: "put c l w = Continue ?l' ?w'"
    using a m sz by (simp add: put_def store_def)
  have blk: "?b[length cs := Some c] =
      map Some (cs @ [c]) @ replicate (unat (capacity l) - Suc (length cs)) None"
    using sz(2) by (intro block_put) auto
  have s': "unat (size ?l') = length (cs @ [c])"
    using unat_size_succ [of "size l" "capacity l"] sz by simp
  have "loop_inv (cs @ [c]) ?l' ?w'"
    unfolding loop_inv_def using a cap s' room m blk
    by (intro exI [of _ a] exI [of _ k]) (simp add: fun_eq_iff)
  with p show ?thesis by simp
qed


lemma body_cases:
  assumes inv: "loop_inv cs l w"
  shows "(\<exists>l' w' ev. bind (grow ok l w) (put c) = Continue l' w' \<and> loop_inv (cs @ [c]) l' w' \<and>
            trace w' = trace w @ ev \<and> list_all growth ev \<and>
            unat (capacity l') \<le> max (unat (capacity l)) (2 * length (cs @ [c]))) \<or>
         (\<exists>w' p n. bind (grow ok l w) (put c) = Exit EXIT_FAILURE w' \<and> live w' = {} \<and>
            trace w' = trace w @ [Realloc p n NULL, Free p,
              Perror ''Could not reallocate buffer with capacity''])"
proof (cases "Suc (length cs) < unat (capacity l)")
  case True
  from grow_fits [OF inv True] put_inv [OF inv True, of c] show ?thesis
    by auto
next
  case False
  then have full: "unat (capacity l) \<le> Suc (length cs)" by simp
  show ?thesis
  proof (cases "grants ok (2 * unat (capacity l))")
    case True
    from grow_doubles [OF inv full True] obtain l1 w1 where
      g: "grow ok l w = Continue l1 w1" and inv1: "loop_inv cs l1 w1"
      and c1: "unat (capacity l1) = 2 * unat (capacity l)"
      and t1: "trace w1 = trace w @ [Realloc (buffer l) (2 * unat (capacity l)) (Ptr (brk w))]"
      by blast
    from inv have "length cs < unat (capacity l)" "\<exists>a. buffer l = Ptr a"
      by (auto simp: loop_inv_def)
    then have room: "Suc (length cs) < unat (capacity l1)"
      and gr: "growth (Realloc (buffer l) (2 * unat (capacity l)) (Ptr (brk w)))"
      using c1 by auto
    from put_inv [OF inv1 room, of c] obtain l2 w2 where
      p: "put c l1 w1 = Continue l2 w2" and inv2: "loop_inv (cs @ [c]) l2 w2"
      and t2: "trace w2 = trace w1" and c2: "capacity l2 = capacity l1"
      by blast
    have "unat (capacity l2) \<le> max (unat (capacity l)) (2 * length (cs @ [c]))"
      using c1 c2 full by simp
    with g p inv2 t1 t2 gr show ?thesis by simp
  next
    case False
    from grow_refused [OF inv full False] show ?thesis by auto
  qed
qed

lemma read_loop_cases:
  assumes "loop_inv cs l w"
  shows "(\<exists>l' w' ev. read_loop ok rest l w = Continue l' w' \<and> loop_inv (cs @ rest) l' w' \<and>
            trace w' = trace w @ ev \<and> list_all growth ev \<and>
            unat (capacity l') \<le> max (unat (capacity l)) (2 * length (cs @ rest))) \<or>
         (\<exists>w' ev p n. read_loop ok rest l w = Exit EXIT_FAILURE w' \<and> live w' = {} \<and>
            trace w' = trace w @ ev @ [Realloc p n NULL, Free p,
              Perror ''Could not reallocate buffer with capacity''] \<and> list_all growth ev)"
  using assms
proof (induction rest arbitrary: cs l w)
  case Nil
  then show ?case by auto
next
  case (Cons c rest)
  from body_cases [OF Cons.prems, of ok c] show ?case
  proof (elim disjE exE conjE)
    fix l1 w1 ev1
    assume b: "bind (grow ok l w) (put c) = Continue l1 w1"
      and inv1: "loop_inv (cs @ [c]) l1 w1"
      and t1: "trace w1 = trace w @ ev1" and g1: "list_all growth ev1"
      and c1: "unat (capacity l1) \<le> max (unat (capacity l)) (2 * length (cs @ [c]))"
    from Cons.IH [OF inv1] show ?thesis
    proof (elim disjE exE conjE)
      fix l2 w2 ev2
      assume r: "read_loop ok rest l1 w1 = Continue l2 w2" "loop_inv ((cs @ [c]) @ rest) l2 w2"
        "trace w2 = trace w1 @ ev2" "list_all growth ev2"
        and c2: "unat (capacity l2) \<le> max (unat (capacity l1)) (2 * length ((cs @ [c]) @ rest))"
      from c1 c2 have "unat (capacity l2) \<le> max (unat (capacity l)) (2 * length (cs @ c # rest))"
        by auto
      with r b t1 g1 have "read_loop ok (c # rest) l w = Continue l2 w2 \<and>
          loop_inv (cs @ c # rest) l2 w2 \<and> trace w2 = trace w @ (ev1 @ ev2) \<and>
          list_all growth (ev1 @ ev2) \<and>
          unat (capacity l2) \<le> max (unat (capacity l)) (2 * length (cs @ c # rest))" by simp
      then show ?thesis by blast
    next
      fix w2 ev2 p n
      assume "read_loop ok rest l1 w1 = Exit EXIT_FAILURE w2" "live w2 = {}"
        "trace w2 = trace w1 @ ev2 @ [Realloc p n NULL, Free p,
              Perror ''Could not reallocate buffer with capacity'']" "list_all growth ev2"
      with b t1 g1 have "read_loop ok (c # rest) l w = Exit EXIT_FAILURE w2 \<and> live w2 = {} \<and>
          trace w2 = trace w @ (ev1 @ ev2) @ [Realloc p n NULL, Free p,
              Perror ''Could not reallocate buffer with capacity''] \<and>
          list_all growth (ev1 @ ev2)" by simp
      then show ?thesis by blast
    qed
  next
    fix w1 p n
    assume "bind (grow ok l w) (put c) = Exit EXIT_FAILURE w1" "live w1 = {}"
      "trace w1 = trace w @ [Realloc p n NULL, Free p,
              Perror ''Could not reallocate buffer with capacity'']"
    then have "read_loop ok (c # rest) l w = Exit EXIT_FAILURE w1 \<and> live w1 = {} \<and>
          trace w1 = trace w @ [] @ [Realloc p n NULL, Free p,
              Perror ''Could not reallocate buffer with capacity''] \<and> list_all growth []"
      by simp
    then show ?thesis by blast
  qed
qed

lemma read_loop_granted:
  assumes "loop_inv cs l w" and "\<forall>n \<le> 2 * (length cs + length rest). grants ok n"
  shows "\<exists>l' w'. read_loop ok rest l w = Continue l' w'"
  using assms
proof (induction rest arbitrary: cs l w)
  case Nil
  then show ?case by simp
next
  case (Cons c rest)
  have "\<exists>l1 w1. bind (grow ok l w) (put c) = Continue l1 w1 \<and> loop_inv (cs @ [c]) l1 w1"
  proof (cases "Suc (length cs) < unat (capacity l)")
    case True
    from grow_fits [OF Cons.prems(1) True] put_inv [OF Cons.prems(1) True, of c]
    show ?thesis by auto
  next
    case False
    then have full: "unat (capacity l) \<le> Suc (length cs)" by simp
    with Cons.prems(2) have "grants ok (2 * unat (capacity l))" by simp
    from grow_doubles [OF Cons.prems(1) full this] obtain l0 w0 where
      g: "grow ok l w = Continue l0 w0" and inv0: "loop_inv cs l0 w0"
      and c0: "unat (capacity l0) = 2 * unat (capacity l)"
      by blast
    from Cons.prems(1) have "length cs < unat (capacity l)" by (auto simp: loop_inv_def)
    with c0 have "Suc (length cs) < unat (capacity l0)" by simp
    from put_inv [OF inv0 this, of c] g show ?thesis by auto
  qed
  then obtain l1 w1 where b: "bind (grow ok l w) (put c) = Continue l1 w1"
    and inv1: "loop_inv (cs @ [c]) l1 w1" by blast
  from Cons.prems(2) have "\<forall>n \<le> 2 * (length (cs @ [c]) + length rest). grants ok n" by simp
  from Cons.IH [OF inv1 this] b show ?case by simp
qed

lemma read_loop_append:
  "read_loop ok (xs @ ys) l w = bind (read_loop ok xs l w) (read_loop ok ys)"
proof (induction xs arbitrary: l w)
  case Nil
  show ?case by simp
next
  case (Cons c xs)
  show ?case
  proof (cases "bind (grow ok l w) (put c)")
    case (Continue l1 w1)
    with Cons.IH [of l1 w1] show ?thesis by simp
  qed simp_all
qed


lemma reading_cases:
  "(\<exists>l w ev. reading ok cs = Continue l w \<and> loop_inv cs l w \<and>
      trace w = start_trace @ ev \<and> list_all growth ev \<and>
      unat (capacity l) \<le> max 1024 (2 * length cs)) \<or>
   (\<exists>w. reading ok cs = Exit EXIT_FAILURE w \<and> live w = {} \<and>
      trace w = [Debug 26 ''Starting main function'', Malloc 1024 NULL,
                 Perror ''Could not allocate buffer with capacity'']) \<or>
   (\<exists>w ev p n. reading ok cs = Exit EXIT_FAILURE w \<and> live w = {} \<and>
      trace w = start_trace @ ev @ [Realloc p n NULL, Free p,
                  Perror ''Could not reallocate buffer with capacity''] \<and>
      list_all growth ev)"
proof (cases "grants ok 1024")
  case True
  from read_loop_cases [OF start_inv, of ok cs] start_granted [OF True] show ?thesis
    by (auto simp: reading_def)
next
  case False
  from start_refused [OF False] show ?thesis
    by (simp add: reading_def live_def c_block_def)
qed

lemma reading_granted:
  assumes "\<forall>n \<le> max 1024 (2 * length cs). grants ok n"
  shows "\<exists>l w. reading ok cs = Continue l w"
proof -
  from assms have "grants ok 1024" "\<forall>n \<le> 2 * (length ([] :: string) + length cs). grants ok n"
    by auto
  from read_loop_granted [OF start_inv this(2)] start_granted [OF this(1)] show ?thesis
    by (simp add: reading_def)
qed

lemma reading_append:
  "reading ok (cs @ rest) = bind (reading ok cs) (read_loop ok rest)"
  by (cases "start ok world0") (simp_all add: reading_def read_loop_append)

lemma terminate_inv:
  assumes inv: "loop_inv cs l w"
  shows "\<exists>w'. terminate l w = Continue l w' \<and> final_inv cs l w' \<and>
           trace w' = trace w @ [Debug 52 (''Stdin read. Content: '' @ text_of cs)]"
proof -
  from inv obtain a k where a: "buffer l = Ptr a" "brk w = Suc a"
    and cap: "unat (capacity l) = 1024 * 2 ^ k" "unat (capacity l) \<le> PTRDIFF_MAX"
    and sz: "unat (size l) = length cs" "length cs < unat (capacity l)"
    and m: "mem w = (\<lambda>x. None)(a \<mapsto> (C_heap,
                  map Some cs @ replicate (unat (capacity l) - length cs) None))"
    by (auto simp: loop_inv_def)
  let ?b = "map Some cs @ replicate (unat (capacity l) - length cs) None"
  let ?b' = "map Some cs @ Some NUL # replicate (unat (capacity l) - Suc (length cs)) None"
  have blk: "?b[length cs := Some NUL] = ?b'"
    using sz(2) block_put [of "length cs" cs "unat (capacity l)" NUL] by simp
  have sc: "scan ?b' = Some (text_of cs)"
    by (rule scan_terminated)
  let ?w1 = "w\<lparr>mem := (mem w)(a \<mapsto> (C_heap, ?b'))\<rparr>"
  have st: "store (buffer l) (unat (size l)) NUL w = Some ?w1"
    using a m sz blk by (simp add: store_def)
  have cs: "cstring ?w1 (buffer l) = Some (text_of cs)"
    using a sc by (simp add: cstring_def)
  have t: "terminate l w =
      Continue l (log (Debug 52 (''Stdin read. Content: '' @ text_of cs)) ?w1)"
    by (simp add: terminate_def st cs)
  have "final_inv cs l (log (Debug 52 (''Stdin read. Content: '' @ text_of cs)) ?w1)"
    unfolding final_inv_def using a cap sz m
    by (intro exI [of _ a] exI [of _ k]) (simp add: log_def fun_eq_iff)
  with t show ?thesis by (simp add: log_def)
qed

lemma run_null:
  assumes inv: "final_inv cs l w" and p: "parser (text_of cs) = None"
  shows "run parser l w = Undefined"
proof -
  from inv obtain a where a: "buffer l = Ptr a"
    and m: "mem w = (\<lambda>x. None)(a \<mapsto> (C_heap,
              map Some (cs @ [NUL]) @ replicate (unat (capacity l) - Suc (length cs)) None))"
    by (auto simp: final_inv_def)
  have "cstring w (buffer l) = Some (text_of cs)"
    using a m scan_terminated [of cs "replicate (unat (capacity l) - Suc (length cs)) None"]
    by (simp add: cstring_def)
  then show ?thesis
    using p by (simp add: run_def parse_to_string_def printf_result_def cstring_def)
qed

lemma run_result:
  assumes inv: "final_inv cs l w" and p: "parser (text_of cs) = Some r"
  shows "\<exists>w'. run parser l w = Exit EXIT_SUCCESS w' \<and> mem w' = mem w \<and>
           brk w' = Suc (brk w) \<and>
           trace w' = trace w @ [Parse (buffer l), Malloc (Suc (length r)) (Ptr (brk w)),
             Stdout (''RESULT:'' @ [LF] @ text_of r @ [LF]), Free (Ptr (brk w))]"
proof -
  from inv obtain a where a: "buffer l = Ptr a" "brk w = Suc a"
    and m: "mem w = (\<lambda>x. None)(a \<mapsto> (C_heap,
              map Some (cs @ [NUL]) @ replicate (unat (capacity l) - Suc (length cs)) None))"
    by (auto simp: final_inv_def)
  have c: "cstring w (buffer l) = Some (text_of cs)"
    using a m scan_terminated [of cs "replicate (unat (capacity l) - Suc (length cs)) None"]
    by (simp add: cstring_def)
  let ?w1 = "w\<lparr>mem := (mem w)(brk w \<mapsto> (C_heap, map Some r @ [Some NUL])),
               brk := Suc (brk w),
               trace := trace w @ [Parse (buffer l), Malloc (Suc (length r)) (Ptr (brk w))]\<rparr>"
  have ps: "parse_to_string parser (buffer l) w = Continue (Ptr (brk w)) ?w1"
    using c p by (simp add: parse_to_string_def)
  have c1: "cstring ?w1 (Ptr (brk w)) = Some (text_of r)"
    using scan_terminated [of r "[]"] by (simp add: cstring_def)
  have restored: "(mem ?w1)(brk w := None) = mem w"
    using a m by (auto simp: fun_eq_iff)
  show ?thesis
    unfolding run_def ps
    using c1 restored
    by (simp add: printf_result_def free_def c_block_def log_def cstring_def)
qed


lemma accumulate_cases:
  "(\<exists>l w ev. accumulate ok input = Continue l w \<and> final_inv input l w \<and>
      trace w = start_trace @ ev @ [Debug 52 (''Stdin read. Content: '' @ text_of input)] \<and>
      list_all growth ev \<and> unat (capacity l) \<le> max 1024 (2 * length input)) \<or>
   (\<exists>w. accumulate ok input = Exit EXIT_FAILURE w \<and> live w = {} \<and>
      trace w = [Debug 26 ''Starting main function'', Malloc 1024 NULL,
                 Perror ''Could not allocate buffer with capacity'']) \<or>
   (\<exists>w ev p n. accumulate ok input = Exit EXIT_FAILURE w \<and> live w = {} \<and>
      trace w = start_trace @ ev @ [Realloc p n NULL, Free p,
                  Perror ''Could not reallocate buffer with capacity''] \<and>
      list_all growth ev)"
  using reading_cases [of ok input]
proof (elim disjE exE conjE)
  fix l w ev
  assume r: "reading ok input = Continue l w" and inv: "loop_inv input l w"
    and t: "trace w = start_trace @ ev" and g: "list_all growth ev"
    and c: "unat (capacity l) \<le> max 1024 (2 * length input)"
  from terminate_inv [OF inv] r t g c show ?thesis
    by (auto simp: accumulate_def)
qed (auto simp: accumulate_def)

lemma accumulate_granted:
  assumes "\<forall>n \<le> max 1024 (2 * length input). grants ok n"
  shows "\<exists>l w. accumulate ok input = Continue l w"
proof -
  from reading_granted [OF assms] obtain l w where r: "reading ok input = Continue l w"
    by blast
  with reading_cases [of ok input] have "loop_inv input l w" by auto
  from terminate_inv [OF this] r show ?thesis by (auto simp: accumulate_def)
qed

lemma live_final:
  assumes "final_inv cs l w"
  shows "\<exists>a. buffer l = Ptr a \<and> live w = {a}"
  using assms by (auto simp: final_inv_def live_def c_block_def)

lemma live_loop:
  assumes "loop_inv cs l w"
  shows "\<exists>a. buffer l = Ptr a \<and> live w = {a}"
  using assms by (auto simp: loop_inv_def live_def c_block_def)

lemma stdout_of_append: "stdout_of (xs @ ys) = stdout_of xs @ stdout_of ys"
  by (induction xs rule: stdout_of.induct) simp_all

lemma stdout_of_growth: "list_all growth ev \<Longrightarrow> stdout_of ev = []"
  by (induction ev rule: stdout_of.induct) simp_all

lemma growth_not_failed: "list_all growth ev \<Longrightarrow> \<not> list_ex alloc_failed ev"
proof (induction ev)
  case Nil
  show ?case by simp
next
  case (Cons e ev)
  then show ?case by (cases e rule: growth.cases) simp_all
qed

lemma growth_not_parse: "list_all growth ev \<Longrightarrow> \<not> list_ex is_parse ev"
proof (induction ev)
  case Nil
  show ?case by simp
next
  case (Cons e ev)
  then show ?case by (cases e rule: growth.cases) simp_all
qed

lemma growth_not_free: "list_all growth ev \<Longrightarrow> Free p \<notin> set ev"
proof (induction ev)
  case Nil
  show ?case by simp
next
  case (Cons e ev)
  then show ?case by (cases e rule: growth.cases) simp_all
qed

text \<open>The four ways a run of the program can go.\<close>

lemma main_cases:
  "(\<exists>l w w' ev r a. accumulate ok input = Continue l w \<and> final_inv input l w \<and>
      parser (text_of input) = Some r \<and>
      main ok parser input = Exit EXIT_SUCCESS w' \<and> buffer l = Ptr a \<and> live w' = {a} \<and>
      mem w' = mem w \<and>
      trace w' = start_trace @ ev @
        [Debug 52 (''Stdin read. Content: '' @ text_of input), Parse (Ptr a),
         Malloc (Suc (length r)) (Ptr (Suc a)), Stdout (''RESULT:'' @ [LF] @ text_of r @ [LF]),
         Free (Ptr (Suc a))] \<and>
      list_all growth ev) \<or>
   (\<exists>l w ev. accumulate ok input = Continue l w \<and> parser (text_of input) = None \<and>
      main ok parser input = Undefined \<and>
      trace w = start_trace @ ev @ [Debug 52 (''Stdin read. Content: '' @ text_of input)] \<and>
      list_all growth ev) \<or>
   (\<exists>w. main ok parser input = Exit EXIT_FAILURE w \<and> live w = {} \<and>
      trace w = [Debug 26 ''Starting main function'', Malloc 1024 NULL,
                 Perror ''Could not allocate buffer with capacity'']) \<or>
   (\<exists>w ev p n. main ok parser input = Exit EXIT_FAILURE w \<and> live w = {} \<and>
      trace w = start_trace @ ev @ [Realloc p n NULL, Free p,
                  Perror ''Could not reallocate buffer with capacity''] \<and>
      list_all growth ev)"
  using accumulate_cases [of ok input]
proof (elim disjE exE conjE)
  fix l w ev
  assume acc: "accumulate ok input = Continue l w" and inv: "final_inv input l w"
    and t: "trace w = start_trace @ ev @ [Debug 52 (''Stdin read. Content: '' @ text_of input)]"
    and g: "list_all growth ev"
  from live_final [OF inv] obtain a where a: "buffer l = Ptr a" "live w = {a}" by blast
  from inv a have b: "brk w = Suc a" by (auto simp: final_inv_def)
  show ?thesis
  proof (cases "parser (text_of input)")
    case None
    from run_null [of input l w parser, OF inv None] acc None t g show ?thesis
      by (simp add: main_def)
  next
    case (Some r)
    from run_result [of input l w parser r, OF inv Some] obtain w' where
      "run parser l w = Exit EXIT_SUCCESS w'" "mem w' = mem w"
      "trace w' = trace w @ [Parse (buffer l), Malloc (Suc (length r)) (Ptr (brk w)),
             Stdout (''RESULT:'' @ [LF] @ text_of r @ [LF]), Free (Ptr (brk w))]"
      by blast
    moreover from this(2) a have "live w' = {a}" by (simp add: live_def c_block_def)
    ultimately show ?thesis using acc inv Some a b t g by (simp add: main_def)
  qed
qed (auto simp: main_def)

lemma main_granted:
  assumes g: "\<forall>n \<le> max 1024 (2 * length input). grants ok n"
    and p: "parser (text_of input) = Some r"
  shows "\<exists>w a ev. main ok parser input = Exit EXIT_SUCCESS w \<and> live w = {a} \<and>
           trace w = start_trace @ ev @
             [Debug 52 (''Stdin read. Content: '' @ text_of input), Parse (Ptr a),
              Malloc (Suc (length r)) (Ptr (Suc a)),
              Stdout (''RESULT:'' @ [LF] @ text_of r @ [LF]), Free (Ptr (Suc a))] \<and>
           list_all growth ev \<and>
           stdout_of (trace w) = ''RESULT:'' @ [LF] @ text_of r @ [LF]"
proof -
  from accumulate_granted [OF g] obtain l w where acc: "accumulate ok input = Continue l w"
    by blast
  with accumulate_cases [of ok input] have inv: "final_inv input l w" by auto
  from run_result [of input l w parser r, OF inv p] acc
  obtain w' where m: "main ok parser input = Exit EXIT_SUCCESS w'"
    by (auto simp: main_def)
  with main_cases [of ok input parser] p obtain a ev where
    "live w' = {a}" "trace w' = start_trace @ ev @
             [Debug 52 (''Stdin read. Content: '' @ text_of input), Parse (Ptr a),
              Malloc (Suc (length r)) (Ptr (Suc a)),
              Stdout (''RESULT:'' @ [LF] @ text_of r @ [LF]), Free (Ptr (Suc a))]"
    "list_all growth ev"
    by auto
  moreover from this have "stdout_of (trace w') = ''RESULT:'' @ [LF] @ text_of r @ [LF]"
    by (simp add: stdout_of_append stdout_of_growth start_trace_def)
  ultimately show ?thesis using m by blast
qed

lemma grants_all: "n < 2 ^ 63 \<Longrightarrow> grants (\<lambda>n. True) n"
  by (simp add: grants_def PTRDIFF_MAX_def)

lemma capacity_above:
  fixes n :: nat
  assumes "n < 1024"
  shows "n < 1024 * 2 ^ k"
proof -
  define p :: nat where "p = 2 ^ k"
  have "1 \<le> p" by (simp add: p_def)
  with assms have "n < 1024 * p" by arith
  then show ?thesis by (simp add: p_def)
qed

lemma capacity_least:
  fixes c :: nat
  assumes "c = 1024 * 2 ^ k" and "c \<le> max 1024 (2 * n)" and "n < 1024"
  shows "c = 1024"
proof (cases k)
  case 0
  with assms show ?thesis by simp
next
  case (Suc j)
  define p :: nat where "p = 2 ^ j"
  have "1 \<le> p" by (simp add: p_def)
  moreover from assms Suc have "2048 * p \<le> max 1024 (2 * n)" by (simp add: p_def)
  ultimately have False using assms(3) by arith
  then show ?thesis ..
qed

lemma grow_room:
  assumes inv: "loop_inv cs l w" and g: "grow ok l w = Continue l' w'"
  shows "loop_inv cs l' w' \<and> Suc (length cs) < unat (capacity l') \<and> size l' = size l"
proof (cases "Suc (length cs) < unat (capacity l)")
  case True
  from grow_fits [OF inv True, of ok] g inv True show ?thesis by simp
next
  case False
  then have full: "unat (capacity l) \<le> Suc (length cs)" by simp
  have ok: "grants ok (2 * unat (capacity l))"
    using grow_refused [OF inv full, of ok] g by auto
  from inv have "length cs < unat (capacity l)" by (auto simp: loop_inv_def)
  with grow_doubles [OF inv full ok] g show ?thesis by auto
qed

lemma failed_trace:
  assumes "list_all growth ev"
  shows "list_ex alloc_failed (start_trace @ ev @ [Realloc p n NULL, Free p, Perror m])"
    and "\<not> list_ex is_parse (start_trace @ ev @ [Realloc p n NULL, Free p, Perror m])"
    and "last (start_trace @ ev @ [Realloc p n NULL, Free p, Perror m]) = Perror m"
  using growth_not_parse [OF assms] by (simp_all add: start_trace_def)

lemma success_trace:
  assumes "list_all growth ev"
  shows "\<not> list_ex alloc_failed (start_trace @ ev @
           [Debug 52 s, Parse (Ptr a), Malloc n (Ptr b), Stdout t, Free (Ptr b)])"
  using growth_not_failed [OF assms] by (simp add: start_trace_def)

lemma main_refused_growth:
  assumes r: "reading ok cs = Continue l w"
    and full: "unat (capacity l) \<le> unat (size l) + 1"
    and no: "\<not> grants ok (2 * unat (capacity l))"
  shows "\<exists>a. buffer l = Ptr a \<and> live w = {a} \<and>
           (\<exists>w'. grow ok l w = Exit EXIT_FAILURE w' \<and> live w' = {} \<and>
              main ok parser (cs @ c # rest) = Exit EXIT_FAILURE w' \<and>
              trace w' = trace w @ [Realloc (Ptr a) (2 * unat (capacity l)) NULL, Free (Ptr a),
                Perror ''Could not reallocate buffer with capacity''])"
proof -
  from r reading_cases [of ok cs] have inv: "loop_inv cs l w" by auto
  then have "unat (size l) = length cs" by (auto simp: loop_inv_def)
  with full have full': "unat (capacity l) \<le> Suc (length cs)" by simp
  from live_loop [OF inv] obtain a where a: "buffer l = Ptr a" "live w = {a}" by blast
  from grow_refused [OF inv full' no] obtain w' where
    g: "grow ok l w = Exit EXIT_FAILURE w'" "live w' = {}"
    "trace w' = trace w @ [Realloc (buffer l) (2 * unat (capacity l)) NULL,
             Free (buffer l), Perror ''Could not reallocate buffer with capacity'']"
    by blast
  have "main ok parser (cs @ c # rest) = Exit EXIT_FAILURE w'"
    using r g(1) by (simp add: main_def accumulate_def reading_append)
  with a g show ?thesis by simp
qed

lemma main_empty:
  assumes "grants ok 1024" and p: "parser [] = Some r"
  shows "\<exists>w. main ok parser [] = Exit EXIT_SUCCESS w \<and> live w = {0} \<and>
           trace w = start_trace @
             [Debug 52 ''Stdin read. Content: '', Parse (Ptr 0), Malloc (Suc (length r)) (Ptr 1),
              Stdout (''RESULT:'' @ [LF] @ text_of r @ [LF]), Free (Ptr 1)]"
proof -
  let ?l = "\<lparr>buffer = Ptr 0, size = 0, capacity = 1024\<rparr>"
  let ?w = "\<lparr>mem = (\<lambda>x. None)(0 \<mapsto> (C_heap, replicate 1024 None)), brk = Suc 0,
      trace = start_trace\<rparr>"
  have r: "reading ok [] = Continue ?l ?w"
    using start_granted [OF assms(1)] by (simp add: reading_def)
  from terminate_inv [OF start_inv] obtain w1 where
    t: "terminate ?l ?w = Continue ?l w1" and inv: "final_inv [] ?l w1"
    and t1: "trace w1 = start_trace @ [Debug 52 ''Stdin read. Content: '']"
    by (auto simp: text_of_def)
  from inv have b: "brk w1 = Suc 0" and l1: "live w1 = {0}"
    by (auto simp: final_inv_def live_def c_block_def)
  have p': "parser (text_of []) = Some r" using p by (simp add: text_of_def)
  from run_result [of "[]" ?l w1 parser r, OF inv p'] obtain w2 where
    "run parser ?l w1 = Exit EXIT_SUCCESS w2" "mem w2 = mem w1"
    "trace w2 = trace w1 @ [Parse (buffer ?l), Malloc (Suc (length r)) (Ptr (brk w1)),
             Stdout (''RESULT:'' @ [LF] @ text_of r @ [LF]), Free (Ptr (brk w1))]"
    by blast
  moreover from this(2) l1 have "live w2 = {0}" by (simp add: live_def c_block_def)
  ultimately show ?thesis
    using r t t1 b by (simp add: main_def accumulate_def)
qed

lemma wf_fresh:
  assumes wf: "wf_world w" and n: "brk w \<le> n"
  shows "mem w n = None"
proof (rule ccontr)
  assume "mem w n \<noteq> None"
  with wf have "n < brk w" by (simp add: wf_world_def)
  with n show False by simp
qed

lemma managed_cstring:
  assumes "managed_text w v = Some s"
  shows "cstring w (Ptr v) = Some s"
  using assms by (auto simp: managed_text_def cstring_def split: option.splits owner.splits)

lemma shim_result:
  assumes wf: "wf_world w" and c: "cstring w (Ptr v) = Some s" and p: "parser s = Some r"
  shows "\<exists>w'. ocaml_parse_to_string parser v w = Continue (Suc (brk w)) w' \<and>
           mem w' = (mem w)(Suc (brk w) \<mapsto> (Managed, map Some (text_of r) @ [Some NUL])) \<and>
           brk w' = Suc (Suc (brk w)) \<and>
           trace w' = trace w @ [Parse (Ptr v), Malloc (Suc (length r)) (Ptr (brk w)),
             Free (Ptr (brk w))]"
proof -
  let ?b = "brk w"
  let ?w1 = "w\<lparr>mem := (mem w)(?b \<mapsto> (C_heap, map Some r @ [Some NUL])),
               brk := Suc ?b,
               trace := trace w @ [Parse (Ptr v), Malloc (Suc (length r)) (Ptr ?b)]\<rparr>"
  have ps: "parse_to_string parser (Ptr v) w = Continue (Ptr ?b) ?w1"
    using c p by (simp add: parse_to_string_def)
  have c1: "cstring ?w1 (Ptr ?b) = Some (text_of r)"
    using scan_terminated [of r "[]"] by (simp add: cstring_def)
  let ?w2 = "?w1\<lparr>mem := (mem ?w1)(Suc ?b \<mapsto> (Managed, map Some (text_of r) @ [Some NUL])),
               brk := Suc (Suc ?b)\<rparr>"
  have cp: "caml_copy_string (Ptr ?b) ?w1 = Continue (Suc ?b) ?w2"
    using c1 by (simp add: caml_copy_string_def)
  from wf have fresh: "mem w ?b = None" by (rule wf_fresh) simp
  have fr: "free (Ptr ?b) ?w2 =
      Some (?w2\<lparr>mem := (mem ?w2)(?b := None), trace := trace ?w2 @ [Free (Ptr ?b)]\<rparr>)"
    by (simp add: free_def c_block_def)
  have m: "(mem ?w2)(?b := None) =
      (mem w)(Suc ?b \<mapsto> (Managed, map Some (text_of r) @ [Some NUL]))"
    using fresh by (auto simp: fun_eq_iff)
  show ?thesis
    unfolding ocaml_parse_to_string_def String_val_def Let_def ps bind.simps cp fr
    using m by simp
qed

lemma shim_null:
  assumes c: "cstring w (Ptr v) = Some s" and p: "parser s = None"
  shows "ocaml_parse_to_string parser v w = Undefined"
  using assms
  by (simp add: ocaml_parse_to_string_def String_val_def parse_to_string_def
      caml_copy_string_def cstring_def)

lemma shim_dangling:
  assumes c: "cstring w (Ptr v) = None"
  shows "ocaml_parse_to_string parser v w = Undefined"
  using assms
  by (simp add: ocaml_parse_to_string_def String_val_def parse_to_string_def)

lemma hello_world_ok:
  "wf_world \<lparr>mem = (\<lambda>a. None)(0 \<mapsto> (Managed, map Some ''hello'' @ [Some NUL])), brk = 1,
      trace = []\<rparr>"
  "managed_text \<lparr>mem = (\<lambda>a. None)(0 \<mapsto> (Managed, map Some ''hello'' @ [Some NUL])), brk = 1,
      trace = []\<rparr> 0 = Some ''hello''"
  "live \<lparr>mem = (\<lambda>a. None)(0 \<mapsto> (Managed, map Some ''hello'' @ [Some NUL])), brk = 1,
      trace = []\<rparr> = {}"
  by (simp_all add: wf_world_def managed_text_def NUL_def live_def c_block_def)

section \<open>The claims\<close>

subsection \<open>The accumulated buffer\<close>

text \<open>
  C1. For every input, of any length \<open>L\<close>, once the accumulation has finished (line 51) the
  buffer holds the \<open>L\<close> bytes read, then one terminating \<open>NUL\<close>, and nothing has been
  written after it: \<open>L + 1\<close> bytes in all, which fit in the capacity, and the variable
  \<open>size\<close> is \<open>L\<close>. This is so whether or not the buffer had to grow. The accumulation
  never has undefined behaviour, and it does finish when the allocator grants what is asked
  of it.
\<close>

theorem accumulate_terminated_buffer:
  "(\<forall>l w. accumulate ok input = Continue l w \<longrightarrow>
      (\<exists>a. buffer l = Ptr a \<and> unat (size l) = length input \<and>
           Suc (length input) \<le> unat (capacity l) \<and>
           mem w a = Some (C_heap, map Some (input @ [NUL]) @
                        replicate (unat (capacity l) - Suc (length input)) None))) \<and>
   accumulate ok input \<noteq> Undefined \<and>
   ((\<forall>n \<le> max 1024 (2 * length input). grants ok n) \<longrightarrow>
      (\<exists>l w. accumulate ok input = Continue l w))"
proof (intro conjI allI impI)
  fix l w
  assume acc: "accumulate ok input = Continue l w"
  with accumulate_cases [of ok input] have "final_inv input l w" by auto
  then show "\<exists>a. buffer l = Ptr a \<and> unat (size l) = length input \<and>
           Suc (length input) \<le> unat (capacity l) \<and>
           mem w a = Some (C_heap, map Some (input @ [NUL]) @
                        replicate (unat (capacity l) - Suc (length input)) None)"
    by (auto simp: final_inv_def)
next
  from accumulate_cases [of ok input] show "accumulate ok input \<noteq> Undefined" by auto
next
  assume "\<forall>n \<le> max 1024 (2 * length input). grants ok n"
  then show "\<exists>l w. accumulate ok input = Continue l w" by (rule accumulate_granted)
qed

theorem accumulate_terminated_buffer_witness:
  "\<exists>l w a. accumulate (\<lambda>n. True) (replicate 3000 CHR ''a'') = Continue l w \<and>
      buffer l = Ptr a \<and> unat (size l) = 3000 \<and> 3001 \<le> unat (capacity l) \<and>
      mem w a = Some (C_heap, map Some (replicate 3000 CHR ''a'' @ [NUL]) @
                   replicate (unat (capacity l) - 3001) None)"
proof -
  have h: "\<forall>n \<le> max 1024 (2 * length (replicate 3000 CHR ''a'')). grants (\<lambda>n. True) n"
    by (simp add: grants_def PTRDIFF_MAX_def)
  with accumulate_terminated_buffer [of "\<lambda>n. True" "replicate 3000 CHR ''a''"]
  obtain l w where "accumulate (\<lambda>n. True) (replicate 3000 CHR ''a'') = Continue l w"
    by blast
  with accumulate_terminated_buffer [of "\<lambda>n. True" "replicate 3000 CHR ''a''"] h
  show ?thesis by auto
qed

subsection \<open>The growth policy\<close>

text \<open>
  C2. The buffer starts with capacity 1024 and size 0. At the head of every iteration the
  growth step doubles the capacity exactly when \<open>size + 1 \<ge> capacity\<close>, that is when the
  next byte would leave no room for the terminator; the new block then starts with the
  whole old block. Otherwise the step changes nothing. After the accumulation the capacity
  is \<open>1024 * 2 ^ k\<close> for some \<open>k\<close> and is at least the size.
\<close>

theorem growth_policy:
  "(\<forall>l w. start ok world0 = Continue l w \<longrightarrow> capacity l = 1024 \<and> size l = 0) \<and>
   (\<forall>l w l' w'. reading ok cs = Continue l w \<and> grow ok l w = Continue l' w' \<longrightarrow>
      (size l + 1 \<ge> capacity l \<longleftrightarrow> unat (size l) + 1 \<ge> unat (capacity l)) \<and>
      (if size l + 1 \<ge> capacity l
       then unat (capacity l') = 2 * unat (capacity l) \<and>
            (\<exists>a a' b. buffer l = Ptr a \<and> buffer l' = Ptr a' \<and>
               mem w a = Some (C_heap, b) \<and> length b = unat (capacity l) \<and>
               mem w' a' = Some (C_heap, b @ replicate (unat (capacity l)) None))
       else l' = l \<and> w' = w)) \<and>
   (\<forall>l w. accumulate ok input = Continue l w \<longrightarrow>
      (\<exists>k. unat (capacity l) = 1024 * 2 ^ k) \<and> unat (size l) \<le> unat (capacity l))"
proof (intro conjI allI impI)
  fix l w
  assume s: "start ok world0 = Continue l w"
  show "capacity l = 1024" "size l = 0"
    using s start_granted [of ok] start_refused [of ok] by (cases "grants ok 1024"; simp)+
next
  fix l w l' w'
  assume h: "reading ok cs = Continue l w \<and> grow ok l w = Continue l' w'"
  with reading_cases [of ok cs] have inv: "loop_inv cs l w" by auto
  then have sz: "unat (size l) = length cs" "length cs < unat (capacity l)"
    by (auto simp: loop_inv_def)
  then have "unat (size l) < unat (capacity l)" by simp
  then show test: "size l + 1 \<ge> capacity l \<longleftrightarrow> unat (size l) + 1 \<ge> unat (capacity l)"
    by (simp add: size_cmp)
  show "if size l + 1 \<ge> capacity l
       then unat (capacity l') = 2 * unat (capacity l) \<and>
            (\<exists>a a' b. buffer l = Ptr a \<and> buffer l' = Ptr a' \<and>
               mem w a = Some (C_heap, b) \<and> length b = unat (capacity l) \<and>
               mem w' a' = Some (C_heap, b @ replicate (unat (capacity l)) None))
       else l' = l \<and> w' = w"
  proof (cases "size l + 1 \<ge> capacity l")
    case False
    with sz test have "Suc (length cs) < unat (capacity l)" by simp
    from grow_fits [OF inv this, of ok] h False show ?thesis by simp
  next
    case True
    with sz test have full: "unat (capacity l) \<le> Suc (length cs)" by simp
    have ok: "grants ok (2 * unat (capacity l))"
      using grow_refused [OF inv full, of ok] h by auto
    from grow_doubles [OF inv full ok] h have inv': "loop_inv cs l' w'"
      and c': "unat (capacity l') = 2 * unat (capacity l)"
      by auto
    from inv obtain a where a: "buffer l = Ptr a"
      "mem w a = Some (C_heap, map Some cs @ replicate (unat (capacity l) - length cs) None)"
      by (auto simp: loop_inv_def)
    from inv' obtain a' where a': "buffer l' = Ptr a'"
      "mem w' a' = Some (C_heap, map Some cs @ replicate (unat (capacity l') - length cs) None)"
      by (auto simp: loop_inv_def)
    have "replicate (unat (capacity l') - length cs) (None :: char option) =
        replicate (unat (capacity l) - length cs) None @ replicate (unat (capacity l)) None"
      using c' sz by (simp add: replicate_add [symmetric])
    with a a' c' sz True show ?thesis by simp
  qed
next
  fix l w
  assume "accumulate ok input = Continue l w"
  with accumulate_cases [of ok input] have "final_inv input l w" by auto
  then show "\<exists>k. unat (capacity l) = 1024 * 2 ^ k" "unat (size l) \<le> unat (capacity l)"
    by (auto simp: final_inv_def)
qed

theorem growth_policy_witness:
  "(\<exists>l w. start (\<lambda>n. True) world0 = Continue l w \<and> capacity l = 1024 \<and> size l = 0) \<and>
   (\<exists>l w l' w'. reading (\<lambda>n. True) (replicate 1023 CHR ''a'') = Continue l w \<and>
      grow (\<lambda>n. True) l w = Continue l' w' \<and>
      unat (capacity l) = 1024 \<and> unat (capacity l') = 2048) \<and>
   (\<exists>l w k. accumulate (\<lambda>n. True) (replicate 3000 CHR ''a'') = Continue l w \<and>
      unat (capacity l) = 1024 * 2 ^ k \<and> unat (size l) \<le> unat (capacity l))"
proof -
  note T = growth_policy [where ok = "\<lambda>n. True" and cs = "replicate 1023 CHR ''a''"
      and input = "replicate 3000 CHR ''a''"]
  have "\<exists>l w. start (\<lambda>n. True) world0 = Continue l w"
    using start_granted [of "\<lambda>n. True"] by (simp add: grants_all)
  with T have 1: "\<exists>l w. start (\<lambda>n. True) world0 = Continue l w \<and> capacity l = 1024 \<and> size l = 0"
    by blast
  have "\<forall>n \<le> max 1024 (2 * length (replicate 1023 CHR ''a'')). grants (\<lambda>n. True) n"
    by (simp add: grants_all)
  from reading_granted [OF this] obtain l w where
    r: "reading (\<lambda>n. True) (replicate 1023 CHR ''a'') = Continue l w" by blast
  with reading_cases [of "\<lambda>n. True" "replicate 1023 CHR ''a''"]
  have inv: "loop_inv (replicate 1023 CHR ''a'') l w"
    and le: "unat (capacity l) \<le> max 1024 (2 * length (replicate 1023 CHR ''a''))"
    by auto
  from inv obtain k where "unat (capacity l) = 1024 * 2 ^ k" "unat (size l) = 1023"
    by (auto simp: loop_inv_def)
  with le have c: "unat (capacity l) = 1024" and s: "unat (size l) = 1023"
    using capacity_least [of "unat (capacity l)" k 1023] by simp_all
  have "grants (\<lambda>n. True) (2 * unat (capacity l))" using c by (simp add: grants_all)
  from grow_doubles [OF inv _ this] c obtain l' w' where
    g: "grow (\<lambda>n. True) l w = Continue l' w'" by auto
  with T r c s have "unat (capacity l') = 2048" by (auto split: if_splits)
  with r g c have 2: "\<exists>l w l' w'. reading (\<lambda>n. True) (replicate 1023 CHR ''a'') = Continue l w \<and>
      grow (\<lambda>n. True) l w = Continue l' w' \<and>
      unat (capacity l) = 1024 \<and> unat (capacity l') = 2048" by blast
  have "\<forall>n \<le> max 1024 (2 * length (replicate 3000 CHR ''a'')). grants (\<lambda>n. True) n"
    by (simp add: grants_all)
  from accumulate_granted [OF this] T
  have 3: "\<exists>l w k. accumulate (\<lambda>n. True) (replicate 3000 CHR ''a'') = Continue l w \<and>
      unat (capacity l) = 1024 * 2 ^ k \<and> unat (size l) \<le> unat (capacity l)"
    by blast
  from 1 2 3 show ?thesis by blast
qed

subsection \<open>The report\<close>

text \<open>
  C3. With the parser stub that echoes its input, the program writes exactly
  \<^verbatim>\<open>RESULT:\nabc\n\<close> to standard output on the input \<^verbatim>\<open>abc\<close>, and exactly
  \<^verbatim>\<open>RESULT:\n\n\<close> on the empty input; both runs end with status success.
\<close>

theorem echo_report:
  "(\<exists>w. main (\<lambda>n. True) echo ''abc'' = Exit EXIT_SUCCESS w \<and>
        stdout_of (trace w) = ''RESULT:'' @ [LF] @ ''abc'' @ [LF]) \<and>
   (\<exists>w. main (\<lambda>n. True) echo [] = Exit EXIT_SUCCESS w \<and>
        stdout_of (trace w) = ''RESULT:'' @ [LF] @ [] @ [LF])"
proof
  have "\<forall>n \<le> max 1024 (2 * length ''abc''). grants (\<lambda>n. True) n"
    by (simp add: grants_all)
  moreover have "echo (text_of ''abc'') = Some ''abc''"
    by (simp add: echo_def text_of_def NUL_def)
  moreover have "text_of ''abc'' = ''abc''" by (simp add: text_of_def NUL_def)
  ultimately show "\<exists>w. main (\<lambda>n. True) echo ''abc'' = Exit EXIT_SUCCESS w \<and>
        stdout_of (trace w) = ''RESULT:'' @ [LF] @ ''abc'' @ [LF]"
    using main_granted [of "''abc''" "\<lambda>n. True" echo "''abc''"] by auto
next
  have "\<forall>n \<le> max 1024 (2 * length ([] :: string)). grants (\<lambda>n. True) n"
    by (simp add: grants_all)
  moreover have "echo (text_of []) = Some []"
    by (simp add: echo_def text_of_def)
  moreover have "text_of [] = []" by (simp add: text_of_def)
  ultimately show "\<exists>w. main (\<lambda>n. True) echo [] = Exit EXIT_SUCCESS w \<and>
        stdout_of (trace w) = ''RESULT:'' @ [LF] @ [] @ [LF]"
    using main_granted [of "[]" "\<lambda>n. True" echo "[]"] by auto
qed

subsection \<open>The capacity invariant\<close>

text \<open>
  C4. At every point of the accumulation loop \<open>capacity \<ge> size + 1\<close>: at the head of the
  loop after any number of bytes \<open>cs\<close> (where \<open>size\<close> is the number of bytes read), after
  the growth step of an iteration, and after the byte has been stored. The terminator step
  changes neither variable. The state reached after \<open>cs @ rest\<close> is the state reached
  after \<open>cs\<close> continued with \<open>rest\<close>, and its size is not smaller: the size never
  decreases.
\<close>

theorem capacity_invariant:
  "(\<forall>l w. reading ok cs = Continue l w \<longrightarrow>
      unat (size l) + 1 \<le> unat (capacity l) \<and> unat (size l) = length cs \<and>
      (\<forall>l' w'. grow ok l w = Continue l' w' \<longrightarrow>
         size l' = size l \<and> unat (size l') + 1 \<le> unat (capacity l') \<and>
         (\<forall>c l'' w''. put c l' w' = Continue l'' w'' \<longrightarrow>
            unat (size l'') = unat (size l') + 1 \<and>
            unat (size l'') + 1 \<le> unat (capacity l''))) \<and>
      (\<forall>l' w'. terminate l w = Continue l' w' \<longrightarrow>
         size l' = size l \<and> capacity l' = capacity l)) \<and>
   reading ok (cs @ rest) = bind (reading ok cs) (read_loop ok rest) \<and>
   (\<forall>l w l' w'. reading ok cs = Continue l w \<and> reading ok (cs @ rest) = Continue l' w' \<longrightarrow>
      unat (size l) \<le> unat (size l'))"
proof (intro conjI allI impI)
  fix l w
  assume "reading ok cs = Continue l w"
  with reading_cases [of ok cs] have inv: "loop_inv cs l w" by auto
  then show "unat (size l) + 1 \<le> unat (capacity l)" "unat (size l) = length cs"
    by (auto simp: loop_inv_def)
  {
    fix l' w'
    assume g: "grow ok l w = Continue l' w'"
    from grow_room [OF inv g] have inv': "loop_inv cs l' w'"
      and room: "Suc (length cs) < unat (capacity l')" and s: "size l' = size l"
      by auto
    from s show "size l' = size l" .
    from inv' show "unat (size l') + 1 \<le> unat (capacity l')" by (auto simp: loop_inv_def)
    fix c l'' w''
    assume "put c l' w' = Continue l'' w''"
    with put_inv [OF inv' room, of c] have "loop_inv (cs @ [c]) l'' w''" by auto
    with inv' show "unat (size l'') = unat (size l') + 1"
      "unat (size l'') + 1 \<le> unat (capacity l'')"
      by (auto simp: loop_inv_def)
  }
  {
    fix l' w'
    assume "terminate l w = Continue l' w'"
    with terminate_inv [OF inv] show "size l' = size l" "capacity l' = capacity l" by auto
  }
next
  show "reading ok (cs @ rest) = bind (reading ok cs) (read_loop ok rest)"
    by (rule reading_append)
next
  fix l w l' w'
  assume h: "reading ok cs = Continue l w \<and> reading ok (cs @ rest) = Continue l' w'"
  with reading_cases [of ok cs] reading_cases [of ok "cs @ rest"]
  have "loop_inv cs l w" "loop_inv (cs @ rest) l' w'" by auto
  then show "unat (size l) \<le> unat (size l')" by (auto simp: loop_inv_def)
qed

theorem capacity_invariant_witness:
  "\<exists>l w l' w' l'' w''. reading (\<lambda>n. True) ''ab'' = Continue l w \<and>
      grow (\<lambda>n. True) l w = Continue l' w' \<and> put CHR ''c'' l' w' = Continue l'' w'' \<and>
      unat (size l) = 2 \<and> unat (size l) + 1 \<le> unat (capacity l) \<and>
      size l' = size l \<and> unat (size l') + 1 \<le> unat (capacity l') \<and>
      unat (size l'') = 3 \<and> unat (size l'') + 1 \<le> unat (capacity l'')"
proof -
  note T = capacity_invariant [where ok = "\<lambda>n. True" and cs = "''ab''" and rest = "''c''"]
  have "\<forall>n \<le> max 1024 (2 * length ''ab''). grants (\<lambda>n. True) n"
    by (simp add: grants_all)
  from reading_granted [OF this] obtain l w where
    r: "reading (\<lambda>n. True) ''ab'' = Continue l w" by blast
  with reading_cases [of "\<lambda>n. True" "''ab''"] have inv: "loop_inv ''ab'' l w" by auto
  then obtain k where "unat (capacity l) = 1024 * 2 ^ k" by (auto simp: loop_inv_def)
  then have room: "Suc (length ''ab'') < unat (capacity l)"
    using capacity_above [of 3 k] by simp
  from grow_fits [OF inv room] have g: "grow (\<lambda>n. True) l w = Continue l w" .
  from put_inv [OF inv room, of "CHR ''c''"] obtain l'' w'' where
    p: "put CHR ''c'' l w = Continue l'' w''" by blast
  from T r have a: "unat (size l) = 2" "unat (size l) + 1 \<le> unat (capacity l)" by auto
  from T r g p have b: "unat (size l'') = unat (size l) + 1"
    "unat (size l'') + 1 \<le> unat (capacity l'')" by blast+
  from r g p a b show ?thesis by (intro exI [of _ l] exI [of _ w] exI [of _ l''] exI [of _ w'']) simp
qed

subsection \<open>Allocation failure and the exit status\<close>

text \<open>
  C5. In every run that terminates: if an allocation request was refused (the first
  \<^verbatim>\<open>malloc\<close> or a \<^verbatim>\<open>realloc\<close> in the loop), the exit status is
  \<^verbatim>\<open>EXIT_FAILURE\<close>, which is not 0, the last thing the process did was to write a
  \<^verbatim>\<open>perror\<close> diagnostic, and the parser was never entered; if no request was
  refused, the status is \<^verbatim>\<open>EXIT_SUCCESS\<close>, which is 0. A run that does not terminate in
  this way is undefined only after an accumulation without any refusal. A refused first
  allocation, and a refused resize at an iteration that needs one, do end the run with
  status failure.
\<close>

theorem allocation_failure_exit:
  "(\<forall>s w. main ok parser input = Exit s w \<longrightarrow>
      (if list_ex alloc_failed (trace w)
       then s = EXIT_FAILURE \<and> trace w \<noteq> [] \<and> is_perror (last (trace w)) \<and>
            \<not> list_ex is_parse (trace w)
       else s = EXIT_SUCCESS \<and> status_code s = 0)) \<and>
   status_code EXIT_FAILURE \<noteq> 0 \<and>
   (\<forall>x w. main ok parser input \<noteq> Continue x w) \<and>
   (main ok parser input = Undefined \<longrightarrow>
      (\<exists>l w. accumulate ok input = Continue l w \<and> \<not> list_ex alloc_failed (trace w))) \<and>
   (\<not> grants ok 1024 \<longrightarrow>
      (\<exists>w. main ok parser input = Exit EXIT_FAILURE w \<and> list_ex alloc_failed (trace w))) \<and>
   (\<forall>cs c rest l w. input = cs @ c # rest \<and> reading ok cs = Continue l w \<and>
        unat (capacity l) \<le> unat (size l) + 1 \<and> \<not> grants ok (2 * unat (capacity l)) \<longrightarrow>
      (\<exists>w'. main ok parser input = Exit EXIT_FAILURE w' \<and> list_ex alloc_failed (trace w')))"
proof (intro conjI allI impI)
  fix s w
  assume m: "main ok parser input = Exit s w"
  from main_cases [of ok input parser]
  show "if list_ex alloc_failed (trace w)
       then s = EXIT_FAILURE \<and> trace w \<noteq> [] \<and> is_perror (last (trace w)) \<and>
            \<not> list_ex is_parse (trace w)
       else s = EXIT_SUCCESS \<and> status_code s = 0"
  proof (elim disjE exE conjE)
    fix l w0 w' ev r a
    assume "main ok parser input = Exit EXIT_SUCCESS w'"
      "trace w' = start_trace @ ev @
        [Debug 52 (''Stdin read. Content: '' @ text_of input), Parse (Ptr a),
         Malloc (Suc (length r)) (Ptr (Suc a)), Stdout (''RESULT:'' @ [LF] @ text_of r @ [LF]),
         Free (Ptr (Suc a))]" "list_all growth ev"
    with m success_trace [of ev] show ?thesis by simp
  next
    fix l w0 ev
    assume "main ok parser input = Undefined"
    with m show ?thesis by simp
  next
    fix w'
    assume "main ok parser input = Exit EXIT_FAILURE w'"
      "trace w' = [Debug 26 ''Starting main function'', Malloc 1024 NULL,
                 Perror ''Could not allocate buffer with capacity'']"
    with m show ?thesis by simp
  next
    fix w' ev p n
    assume "main ok parser input = Exit EXIT_FAILURE w'"
      "trace w' = start_trace @ ev @ [Realloc p n NULL, Free p,
                  Perror ''Could not reallocate buffer with capacity'']" "list_all growth ev"
    with m failed_trace [of ev p n] show ?thesis by simp
  qed
next
  show "status_code EXIT_FAILURE \<noteq> 0" by simp
next
  fix x w
  from main_cases [of ok input parser] show "main ok parser input \<noteq> Continue x w" by auto
next
  assume u: "main ok parser input = Undefined"
  from main_cases [of ok input parser]
  show "\<exists>l w. accumulate ok input = Continue l w \<and> \<not> list_ex alloc_failed (trace w)"
  proof (elim disjE exE conjE)
    fix l w ev
    assume "accumulate ok input = Continue l w"
      "trace w = start_trace @ ev @ [Debug 52 (''Stdin read. Content: '' @ text_of input)]"
      "list_all growth ev"
    with growth_not_failed [of ev] show ?thesis by (auto simp: start_trace_def)
  qed (use u in simp_all)
next
  assume "\<not> grants ok 1024"
  from start_refused [OF this]
  show "\<exists>w. main ok parser input = Exit EXIT_FAILURE w \<and> list_ex alloc_failed (trace w)"
    by (simp add: main_def accumulate_def reading_def)
next
  fix cs c rest l w
  assume h: "input = cs @ c # rest \<and> reading ok cs = Continue l w \<and>
        unat (capacity l) \<le> unat (size l) + 1 \<and> \<not> grants ok (2 * unat (capacity l))"
  with main_refused_growth [of ok cs l w parser c rest]
  show "\<exists>w'. main ok parser input = Exit EXIT_FAILURE w' \<and> list_ex alloc_failed (trace w')"
    by auto
qed

theorem allocation_failure_exit_witness:
  "\<exists>w. main (\<lambda>n. False) echo ''abc'' = Exit EXIT_FAILURE w \<and>
      list_ex alloc_failed (trace w) \<and> is_perror (last (trace w)) \<and>
      \<not> list_ex is_parse (trace w) \<and> status_code EXIT_FAILURE \<noteq> 0"
proof -
  note T = allocation_failure_exit [where ok = "\<lambda>n. False" and parser = echo
      and input = "''abc''"]
  have "\<not> grants (\<lambda>n. False) 1024" by (simp add: grants_def)
  with T obtain w where m: "main (\<lambda>n. False) echo ''abc'' = Exit EXIT_FAILURE w"
    and f: "list_ex alloc_failed (trace w)" by blast
  from T m have "if list_ex alloc_failed (trace w)
       then EXIT_FAILURE = EXIT_FAILURE \<and> trace w \<noteq> [] \<and> is_perror (last (trace w)) \<and>
            \<not> list_ex is_parse (trace w)
       else EXIT_FAILURE = EXIT_SUCCESS \<and> status_code EXIT_FAILURE = 0" by blast
  with m f show ?thesis by auto
qed

subsection \<open>The binding on the echoing stub\<close>

text \<open>
  C6. With the echoing stub, the binding applied to a managed string holding
  \<^verbatim>\<open>hello\<close> returns a managed string holding \<^verbatim>\<open>hello\<close>; during the call
  the allocator hands out one block and gets one block back, and the set of live blocks of
  the allocator is the same after the call as before.
\<close>

theorem shim_echo_hello:
  "wf_world w \<and> managed_text w v = Some ''hello'' \<longrightarrow>
     (\<exists>v_res w' ev. ocaml_parse_to_string echo v w = Continue v_res w' \<and>
        managed_text w' v_res = Some ''hello'' \<and> trace w' = trace w @ ev \<and>
        allocations ev = 1 \<and> releases ev = 1 \<and> allocations ev = releases ev \<and>
        live w' = live w)"
proof
  assume h: "wf_world w \<and> managed_text w v = Some ''hello''"
  then have wf: "wf_world w" and c: "cstring w (Ptr v) = Some ''hello''"
    by (simp_all add: managed_cstring)
  have e: "echo ''hello'' = Some ''hello''" by (simp add: echo_def)
  from shim_result [where parser = echo and r = "''hello''", OF wf c e] obtain w' where
    r: "ocaml_parse_to_string echo v w = Continue (Suc (brk w)) w'"
    and m: "mem w' = (mem w)(Suc (brk w) \<mapsto> (Managed, map Some (text_of ''hello'') @ [Some NUL]))"
    and t: "trace w' = trace w @ [Parse (Ptr v), Malloc (Suc (length ''hello'')) (Ptr (brk w)),
             Free (Ptr (brk w))]"
    by blast
  from wf have fresh: "mem w (Suc (brk w)) = None" by (rule wf_fresh) simp
  have tx: "text_of ''hello'' = ''hello''" by (simp add: text_of_def NUL_def)
  have "managed_text w' (Suc (brk w)) = Some ''hello''"
    using m scan_terminated [of "''hello''" "[]"] by (simp add: managed_text_def tx)
  moreover have "live w' = live w"
    using m fresh by (auto simp: live_def c_block_def)
  ultimately show "\<exists>v_res w' ev. ocaml_parse_to_string echo v w = Continue v_res w' \<and>
        managed_text w' v_res = Some ''hello'' \<and> trace w' = trace w @ ev \<and>
        allocations ev = 1 \<and> releases ev = 1 \<and> allocations ev = releases ev \<and>
        live w' = live w"
    using r t by (intro exI [of _ "Suc (brk w)"] exI [of _ w']
        exI [of _ "[Parse (Ptr v), Malloc (Suc (length ''hello'')) (Ptr (brk w)),
             Free (Ptr (brk w))]"]) simp
qed

theorem shim_echo_hello_witness:
  "\<exists>v_res w' ev.
      ocaml_parse_to_string echo 0
        \<lparr>mem = (\<lambda>a. None)(0 \<mapsto> (Managed, map Some ''hello'' @ [Some NUL])), brk = 1,
         trace = []\<rparr> = Continue v_res w' \<and>
      managed_text w' v_res = Some ''hello'' \<and> trace w' = ev \<and>
      allocations ev = 1 \<and> releases ev = 1 \<and> live w' = {}"
  using shim_echo_hello [of "\<lparr>mem = (\<lambda>a. None)(0 \<mapsto> (Managed, map Some ''hello'' @ [Some NUL])),
      brk = 1, trace = []\<rparr>" 0] hello_world_ok
  by auto

subsection \<open>What the binding releases\<close>

text \<open>
  C7. In every call of the binding that returns, the calls it makes are: the parser, whose
  allocation of the result block \<open>r\<close> follows, and one \<^verbatim>\<open>free\<close>, of \<open>r\<close>. That
  block did not exist before the call and is not the caller's string \<open>v\<close>, which is in
  memory after the call exactly as before.
\<close>

theorem shim_single_release:
  "wf_world w \<and> ocaml_parse_to_string parser v w = Continue v_res w' \<longrightarrow>
     (\<exists>r n. trace w' = trace w @ [Parse (Ptr v), Malloc n (Ptr r), Free (Ptr r)] \<and>
        r \<noteq> v \<and> mem w r = None \<and> mem w' r = None) \<and>
     releases (drop (length (trace w)) (trace w')) = 1 \<and>
     mem w v \<noteq> None \<and> mem w' v = mem w v"
proof
  assume h: "wf_world w \<and> ocaml_parse_to_string parser v w = Continue v_res w'"
  then have wf: "wf_world w" by simp
  from h shim_dangling [of w v parser] obtain s where c: "cstring w (Ptr v) = Some s"
    by (cases "cstring w (Ptr v)") auto
  from h shim_null [where parser = parser, OF c] obtain r where p: "parser s = Some r"
    by (cases "parser s") auto
  from c have live_v: "mem w v \<noteq> None" by (auto simp: cstring_def split: option.splits)
  with wf have lt: "v < brk w" by (auto simp: wf_world_def)
  from wf have fresh: "mem w (brk w) = None" by (rule wf_fresh) simp
  from shim_result [where parser = parser and r = r, OF wf c p] h have
    m: "mem w' = (mem w)(Suc (brk w) \<mapsto> (Managed, map Some (text_of r) @ [Some NUL]))"
    and t: "trace w' = trace w @ [Parse (Ptr v), Malloc (Suc (length r)) (Ptr (brk w)),
             Free (Ptr (brk w))]"
    by auto
  from m lt fresh t live_v
  show "(\<exists>r n. trace w' = trace w @ [Parse (Ptr v), Malloc n (Ptr r), Free (Ptr r)] \<and>
        r \<noteq> v \<and> mem w r = None \<and> mem w' r = None) \<and>
     releases (drop (length (trace w)) (trace w')) = 1 \<and>
     mem w v \<noteq> None \<and> mem w' v = mem w v"
    by auto
qed

theorem shim_single_release_witness:
  "\<exists>v_res w'.
      ocaml_parse_to_string echo 0
        \<lparr>mem = (\<lambda>a. None)(0 \<mapsto> (Managed, map Some ''hello'' @ [Some NUL])), brk = 1,
         trace = []\<rparr> = Continue v_res w' \<and>
      (\<exists>r n. trace w' = [Parse (Ptr 0), Malloc n (Ptr r), Free (Ptr r)] \<and> r \<noteq> 0 \<and>
         mem w' r = None) \<and>
      mem w' 0 = Some (Managed, map Some ''hello'' @ [Some NUL])"
proof -
  let ?w = "\<lparr>mem = (\<lambda>a. None)(0 \<mapsto> (Managed, map Some ''hello'' @ [Some NUL])), brk = 1,
         trace = []\<rparr>"
  have c: "cstring ?w (Ptr 0) = Some ''hello''"
    using hello_world_ok(2) by (rule managed_cstring)
  have e: "echo ''hello'' = Some ''hello''" by (simp add: echo_def)
  from shim_result [where parser = echo and r = "''hello''", OF hello_world_ok(1) c e]
  obtain w' where
    r: "ocaml_parse_to_string echo 0 ?w = Continue (Suc (brk ?w)) w'" by blast
  from shim_single_release [of ?w echo 0 "Suc (brk ?w)" w'] r hello_world_ok(1)
  show ?thesis by auto
qed

subsection \<open>The buffer at exit\<close>

text \<open>
  C8. The run on the empty input with the echoing stub, event by event: the only release is
  that of the parser's result (block 1). The accumulated buffer (block 0) is never released
  and is still live when the process exits.
\<close>

theorem buffer_not_released:
  "\<exists>w. main (\<lambda>n. True) echo [] = Exit EXIT_SUCCESS w \<and> live w = {0} \<and>
      trace w =
        [Debug 26 ''Starting main function'', Malloc 1024 (Ptr 0),
         Debug 34 ''Initial buffer allocated'', Debug 52 ''Stdin read. Content: '',
         Parse (Ptr 0), Malloc 1 (Ptr 1), Stdout (''RESULT:'' @ [LF, LF]), Free (Ptr 1)]"
  using main_empty [of "\<lambda>n. True" echo "[]"]
  by (simp add: grants_all echo_def start_trace_def text_of_def)

subsection \<open>The unchecked parser result\<close>

text \<open>
  C9. Neither caller looks at the parser's result before using it. After a finished
  accumulation the rest of \<^verbatim>\<open>main\<close> is undefined exactly when the parser returns a null
  pointer; and the binding, called on a managed string, is undefined exactly when the parser
  returns a null pointer.
\<close>

theorem unchecked_parser_result:
  "(\<forall>l w. accumulate ok input = Continue l w \<longrightarrow>
       main ok parser input = run parser l w \<and>
       (run parser l w = Undefined \<longleftrightarrow> parser (text_of input) = None)) \<and>
   (\<forall>s. wf_world w0 \<and> managed_text w0 v = Some s \<longrightarrow>
       (ocaml_parse_to_string parser v w0 = Undefined \<longleftrightarrow> parser s = None))"
proof (intro conjI allI impI)
  fix l w
  assume acc: "accumulate ok input = Continue l w"
  then show "main ok parser input = run parser l w" by (simp add: main_def)
  from acc accumulate_cases [of ok input] have inv: "final_inv input l w" by auto
  show "run parser l w = Undefined \<longleftrightarrow> parser (text_of input) = None"
  proof (cases "parser (text_of input)")
    case None
    with run_null [of input l w parser, OF inv] show ?thesis by simp
  next
    case (Some r)
    with run_result [of input l w parser r, OF inv] show ?thesis by auto
  qed
next
  fix s
  assume h: "wf_world w0 \<and> managed_text w0 v = Some s"
  then have wf: "wf_world w0" and c: "cstring w0 (Ptr v) = Some s"
    by (simp_all add: managed_cstring)
  show "ocaml_parse_to_string parser v w0 = Undefined \<longleftrightarrow> parser s = None"
  proof (cases "parser s")
    case None
    with shim_null [where parser = parser, OF c] show ?thesis by simp
  next
    case (Some r)
    with shim_result [where parser = parser and r = r, OF wf c] show ?thesis by auto
  qed
qed

theorem unchecked_parser_result_witness:
  "(\<exists>l w. accumulate (\<lambda>n. True) ''abc'' = Continue l w \<and>
      main (\<lambda>n. True) (\<lambda>s. None) ''abc'' = Undefined) \<and>
   ocaml_parse_to_string (\<lambda>s. None) 0
     \<lparr>mem = (\<lambda>a. None)(0 \<mapsto> (Managed, map Some ''hello'' @ [Some NUL])), brk = 1,
      trace = []\<rparr> = Undefined"
proof -
  let ?w = "\<lparr>mem = (\<lambda>a. None)(0 \<mapsto> (Managed, map Some ''hello'' @ [Some NUL])), brk = 1,
         trace = []\<rparr>"
  note T = unchecked_parser_result [where ok = "\<lambda>n. True" and input = "''abc''"
      and parser = "\<lambda>s. None" and ?w0.0 = ?w and v = 0]
  have "\<forall>n \<le> max 1024 (2 * length ''abc''). grants (\<lambda>n. True) n"
    by (simp add: grants_all)
  from accumulate_granted [OF this] obtain l w where
    acc: "accumulate (\<lambda>n. True) ''abc'' = Continue l w" by blast
  with T have "main (\<lambda>n. True) (\<lambda>s. None) ''abc'' = Undefined" by simp
  moreover from T hello_world_ok have "ocaml_parse_to_string (\<lambda>s. None) 0 ?w = Undefined"
    by blast
  ultimately show ?thesis using acc by blast
qed

subsection \<open>The failed resize\<close>

text \<open>
  C10. When the growth step at the head of an iteration ends the process, it does so with
  status failure, and what it did is: the refused \<^verbatim>\<open>realloc\<close> of the buffer, which was
  the one live block, the \<^verbatim>\<open>free\<close> of that same buffer, and then the \<^verbatim>\<open>perror\<close>
  diagnostic. No block is live afterwards, and this is how \<^verbatim>\<open>main\<close> ends on any
  input that goes on after the bytes read so far.
\<close>

theorem realloc_failure_frees_buffer:
  "reading ok cs = Continue l w \<and> grow ok l w = Exit s w' \<longrightarrow>
     s = EXIT_FAILURE \<and>
     (\<exists>a n. buffer l = Ptr a \<and> live w = {a} \<and>
        trace w' = trace w @ [Realloc (Ptr a) n NULL, Free (Ptr a),
          Perror ''Could not reallocate buffer with capacity'']) \<and>
     live w' = {} \<and>
     (\<forall>c rest. main ok parser (cs @ c # rest) = Exit EXIT_FAILURE w')"
proof
  assume h: "reading ok cs = Continue l w \<and> grow ok l w = Exit s w'"
  with reading_cases [of ok cs] have inv: "loop_inv cs l w" by auto
  then have sz: "unat (size l) = length cs" by (auto simp: loop_inv_def)
  have full: "unat (capacity l) \<le> unat (size l) + 1"
    using grow_fits [OF inv, of ok] h sz by (cases "Suc (length cs) < unat (capacity l)") auto
  have no: "\<not> grants ok (2 * unat (capacity l))"
    using grow_doubles [OF inv _ _, of ok] h full sz by auto
  {
    fix c rest
    from main_refused_growth [where cs = cs and parser = parser and c = c and rest = rest,
        OF _ full no] h
    have "s = EXIT_FAILURE \<and>
     (\<exists>a n. buffer l = Ptr a \<and> live w = {a} \<and>
        trace w' = trace w @ [Realloc (Ptr a) n NULL, Free (Ptr a),
          Perror ''Could not reallocate buffer with capacity'']) \<and>
     live w' = {} \<and> main ok parser (cs @ c # rest) = Exit EXIT_FAILURE w'"
      by auto
  }
  then show "s = EXIT_FAILURE \<and>
     (\<exists>a n. buffer l = Ptr a \<and> live w = {a} \<and>
        trace w' = trace w @ [Realloc (Ptr a) n NULL, Free (Ptr a),
          Perror ''Could not reallocate buffer with capacity'']) \<and>
     live w' = {} \<and>
     (\<forall>c rest. main ok parser (cs @ c # rest) = Exit EXIT_FAILURE w')"
    by blast
qed

theorem realloc_failure_frees_buffer_witness:
  "\<exists>l w w' a. reading (\<lambda>n. n \<noteq> 2048) (replicate 1023 CHR ''a'') = Continue l w \<and>
      grow (\<lambda>n. n \<noteq> 2048) l w = Exit EXIT_FAILURE w' \<and>
      buffer l = Ptr a \<and> live w = {a} \<and> live w' = {} \<and>
      trace w' = trace w @ [Realloc (Ptr a) 2048 NULL, Free (Ptr a),
          Perror ''Could not reallocate buffer with capacity''] \<and>
      main (\<lambda>n. n \<noteq> 2048) echo (replicate 1023 CHR ''a'' @ ''b'') = Exit EXIT_FAILURE w'"
proof -
  let ?ok = "\<lambda>n::nat. n \<noteq> 2048"
  let ?cs = "replicate 1023 CHR ''a''"
  have "\<forall>n \<le> max 1024 (2 * length ?cs). grants ?ok n"
    by (simp add: grants_def PTRDIFF_MAX_def)
  from reading_granted [OF this] obtain l w where r: "reading ?ok ?cs = Continue l w" by blast
  with reading_cases [of ?ok ?cs]
  have inv: "loop_inv ?cs l w" and le: "unat (capacity l) \<le> max 1024 (2 * length ?cs)"
    by auto
  from inv obtain k where "unat (capacity l) = 1024 * 2 ^ k" "unat (size l) = 1023"
    by (auto simp: loop_inv_def)
  with le have c: "unat (capacity l) = 1024" and s: "unat (size l) = 1023"
    using capacity_least [of "unat (capacity l)" k 1023] by simp_all
  have no: "\<not> grants ?ok (2 * unat (capacity l))" using c by (simp add: grants_def)
  from grow_refused [OF inv _ no] c obtain w' where
    g: "grow ?ok l w = Exit EXIT_FAILURE w'"
    and t: "trace w' = trace w @ [Realloc (buffer l) 2048 NULL, Free (buffer l),
          Perror ''Could not reallocate buffer with capacity'']" by auto
  from realloc_failure_frees_buffer [of ?ok ?cs l w EXIT_FAILURE w' echo] r g
  obtain a where "buffer l = Ptr a" "live w = {a}" "live w' = {}"
    "main ?ok echo (?cs @ ''b'') = Exit EXIT_FAILURE w'" by blast
  with r g t show ?thesis by auto
qed

end
